theory Spec2Isabelle
  imports Main "HOL-Library.Sublist"
begin

section \<open>Text and regular-expression primitives used by WiFiScanner.py\<close>

text \<open>
  Python strings are modelled as HOL strings: a list of characters whose code points
  are below 256. On such text the class \<^verbatim>\<open>\d\<close> of Python's \<^verbatim>\<open>re\<close> module is exactly
  the ten ASCII digits, and \<^verbatim>\<open>.\<close> (no DOTALL flag) is every character but the newline.
\<close>

definition is_digit :: "char \<Rightarrow> bool" where
  "is_digit c = (c \<in> set ''0123456789'')"

text \<open>The class \<^verbatim>\<open>[0-9A-Fa-f:]\<close>.\<close>

definition is_hex_colon :: "char \<Rightarrow> bool" where
  "is_hex_colon c = (c \<in> set ''0123456789ABCDEFabcdef:'')"

text \<open>The class \<^verbatim>\<open>[\d.]\<close>.\<close>

definition is_digit_dot :: "char \<Rightarrow> bool" where
  "is_digit_dot c = (is_digit c \<or> c = CHR ''.'')"

definition dquote :: char where
  "dquote = CHR 0x22"

definition newline :: char where
  "newline = CHR 0x0A"

text \<open>A literal at the start of the text: the rest of the text behind it, if it is there.\<close>

fun strip_prefix :: "string \<Rightarrow> string \<Rightarrow> string option" where
  "strip_prefix [] s = Some s"
| "strip_prefix (p # ps) [] = None"
| "strip_prefix (p # ps) (c # cs) = (if p = c then strip_prefix ps cs else None)"

text \<open>
  \<^verbatim>\<open>re.search\<close>: the anchored matcher \<open>m\<close> is tried at every position from left to
  right (the end of the text included), and the first position where it matches decides.
\<close>

fun re_search :: "(string \<Rightarrow> 'a option) \<Rightarrow> string \<Rightarrow> 'a option" where
  "re_search m [] = m []"
| "re_search m (c # cs) = (case m (c # cs) of Some r \<Rightarrow> Some r | None \<Rightarrow> re_search m cs)"

text \<open>
  \<^verbatim>\<open>Address: ([0-9A-Fa-f:]{17})\<close> anchored at the start of the text; the value is group 1.
\<close>

definition match_bssid :: "string \<Rightarrow> string option" where
  "match_bssid s =
     (case strip_prefix ''Address: '' s of
        None \<Rightarrow> None
      | Some r \<Rightarrow>
          if 17 \<le> length r \<and> list_all is_hex_colon (take 17 r) then Some (take 17 r) else None)"

text \<open>
  \<^verbatim>\<open>-?\d+\<close> anchored at the start of the text. The optional sign is taken when it is
  there; giving it back cannot help, since the digits would then have to start at the
  sign. The digits are the longest run (greedy).
\<close>

definition signed_digits :: "string \<Rightarrow> string option" where
  "signed_digits r =
     (let sgn = (if take 1 r = ''-'' then ''-'' else '''');
          ds = takeWhile is_digit (drop (length sgn) r)
      in if ds = [] then None else Some (sgn @ ds))"

text \<open>\<^verbatim>\<open>Signal level=(-?\d+)\<close> anchored at the start of the text; the value is group 1.\<close>

definition match_signal :: "string \<Rightarrow> string option" where
  "match_signal s =
     (case strip_prefix ''Signal level='' s of None \<Rightarrow> None | Some r \<Rightarrow> signed_digits r)"

text \<open>
  \<^verbatim>\<open>ESSID:"([^"]*)"\<close> anchored at the start of the text. The group is the run of
  characters up to the next double quote, which has to exist.
\<close>

definition match_essid :: "string \<Rightarrow> string option" where
  "match_essid s =
     (case strip_prefix (''ESSID:'' @ [dquote]) s of
        None \<Rightarrow> None
      | Some r \<Rightarrow>
          if dropWhile (\<lambda>c. c \<noteq> dquote) r = [] then None
          else Some (takeWhile (\<lambda>c. c \<noteq> dquote) r))"

text \<open>A fixed literal anchored at the start of the text (\<^verbatim>\<open>Encryption key:on\<close>).\<close>

definition match_lit :: "string \<Rightarrow> string \<Rightarrow> unit option" where
  "match_lit lit s = (case strip_prefix lit s of None \<Rightarrow> None | Some r \<Rightarrow> Some ())"

text \<open>
  \<^verbatim>\<open>.*LIT\<close> anchored at the start of the text: the literal follows after any number of
  characters none of which is a newline.
\<close>

fun dotstar_lit :: "string \<Rightarrow> string \<Rightarrow> bool" where
  "dotstar_lit lit [] = (strip_prefix lit [] \<noteq> None)"
| "dotstar_lit lit (c # cs) =
     (strip_prefix lit (c # cs) \<noteq> None \<or> (c \<noteq> newline \<and> dotstar_lit lit cs))"

text \<open>\<^verbatim>\<open>IE:.*LIT\<close> anchored at the start of the text, for \<^verbatim>\<open>WPA2\<close> and \<^verbatim>\<open>WPA\<close>.\<close>

definition match_ie :: "string \<Rightarrow> string \<Rightarrow> unit option" where
  "match_ie lit s =
     (case strip_prefix ''IE:'' s of
        None \<Rightarrow> None
      | Some r \<Rightarrow> if dotstar_lit lit r then Some () else None)"

text \<open>
  \<^verbatim>\<open>Frequency:([\d.]+) GHz\<close> anchored at the start of the text. The unit begins with a
  blank, which is not in the class, so the group is the longest run of the class.
\<close>

definition match_freq :: "string \<Rightarrow> string option" where
  "match_freq s =
     (case strip_prefix ''Frequency:'' s of
        None \<Rightarrow> None
      | Some r \<Rightarrow>
          (let v = takeWhile is_digit_dot r in
           if v \<noteq> [] \<and> strip_prefix '' GHz'' (dropWhile is_digit_dot r) \<noteq> None
           then Some v else None))"

text \<open>
  \<^verbatim>\<open>Cell \d+ - \<close> anchored at the start of the text: the text behind the delimiter.
  The blank behind the number is not a digit, so the number is the longest run of digits.
\<close>

definition match_cell_delim :: "string \<Rightarrow> string option" where
  "match_cell_delim s =
     (case strip_prefix ''Cell '' s of
        None \<Rightarrow> None
      | Some r \<Rightarrow>
          if takeWhile is_digit r = [] then None
          else strip_prefix '' - '' (dropWhile is_digit r))"

lemma strip_prefix_Some: "strip_prefix p s = Some r \<longleftrightarrow> s = p @ r"
  by (induction p s rule: strip_prefix.induct) auto

lemma strip_prefix_None: "strip_prefix p s = None \<longleftrightarrow> (\<forall>r. s \<noteq> p @ r)"
  by (induction p s rule: strip_prefix.induct) auto

lemma match_cell_delim_shorter:
  "match_cell_delim s = Some r \<Longrightarrow> length r < length s"
proof -
  assume a: "match_cell_delim s = Some r"
  then obtain t where t: "s = ''Cell '' @ t" and r: "dropWhile is_digit t = '' - '' @ r"
    by (auto simp: match_cell_delim_def strip_prefix_Some split: option.splits if_splits)
  have "length (dropWhile is_digit t) \<le> length t"
    by (rule length_dropWhile_le)
  with r have "length r < length t" by simp
  with t show ?thesis by simp
qed

text \<open>
  \<^verbatim>\<open>re.split(r'Cell \d+ - ', text)\<close>: the pieces of the text between the successive
  leftmost matches of the delimiter; \<open>n\<close> matches give \<open>n + 1\<close> pieces.
\<close>

function re_split :: "string \<Rightarrow> string list" where
  "re_split [] = [[]]"
| "re_split (c # cs) =
     (case match_cell_delim (c # cs) of
        Some r \<Rightarrow> [] # re_split r
      | None \<Rightarrow> (case re_split cs of [] \<Rightarrow> [[c]] | p # ps \<Rightarrow> (c # p) # ps))"
  by pat_completeness auto
termination
  by (relation "measure length") (auto dest: match_cell_delim_shorter)


section \<open>Exceptions and integer conversion\<close>

text \<open>The exceptions that the modelled code can meet.\<close>

datatype py_error =
    ValueError
  | CalledProcessError
  | TimeoutExpired
  | FileNotFoundError
  | OtherException

text \<open>
  \<^verbatim>\<open>int(s)\<close> on the text captured by \<^verbatim>\<open>-?\d+\<close>: an optional minus sign and decimal
  digits, read into an unbounded integer. CPython refuses a conversion with more than
  \<open>max_str_digits\<close> digits with a ValueError (\<^verbatim>\<open>sys.set_int_max_str_digits\<close>; the
  limit is 4300 by default in current interpreters and can be set to 640 or more, and 0
  switches it off, which is also the behaviour of interpreters that have no limit). The
  limit is a parameter of the model. Text of any other shape never reaches the
  conversion; the model answers ValueError for it.
\<close>

definition digit_val :: "char \<Rightarrow> int" where
  "digit_val c = int (of_char c) - 48"

definition py_int :: "nat \<Rightarrow> string \<Rightarrow> py_error + int" where
  "py_int max_str_digits s =
     (let neg = (take 1 s = ''-'');
          ds = (if neg then drop 1 s else s)
      in if ds = [] \<or> \<not> list_all is_digit ds then Inl ValueError
         else if 0 < max_str_digits \<and> max_str_digits < length ds then Inl ValueError
         else Inr ((if neg then - 1 else 1) * foldl (\<lambda>a c. 10 * a + digit_val c) 0 ds))"

section \<open>The data model\<close>

text \<open>
  The dataclass \<^verbatim>\<open>NetworkInfo\<close>. \<^verbatim>\<open>last_seen\<close> is filled from the wall clock by
  \<^verbatim>\<open>__post_init__\<close>; a clock reading is a natural number here.
\<close>

record NetworkInfo =
  bssid :: string
  signal_strength :: int
  essid :: "string option"
  encryption :: "string option"
  frequency :: "string option"
  last_seen :: nat

text \<open>
  A Python \<^verbatim>\<open>dict\<close> keeps its keys in insertion order, and the order shows in
  \<^verbatim>\<open>items()\<close>, so a dictionary is the list of its items. \<^verbatim>\<open>d[k] = v\<close> replaces the
  value of a key that is there, in place, and appends a new key at the end.
\<close>

type_synonym ('k, 'v) dict = "('k \<times> 'v) list"

fun dict_setitem :: "('k, 'v) dict \<Rightarrow> 'k \<Rightarrow> 'v \<Rightarrow> ('k, 'v) dict" where
  "dict_setitem [] k v = [(k, v)]"
| "dict_setitem ((k', v') # d) k v =
     (if k' = k then (k', v) # d else (k', v') # dict_setitem d k v)"

text \<open>\<^verbatim>\<open>d.update(other)\<close>: the items of \<open>other\<close> are stored one by one, in order.\<close>

definition dict_update :: "('k, 'v) dict \<Rightarrow> ('k, 'v) dict \<Rightarrow> ('k, 'v) dict" where
  "dict_update d other = fold (\<lambda>(k, v) acc. dict_setitem acc k v) other d"

text \<open>\<^verbatim>\<open>dict(pairs)\<close>: a new dictionary filled from a sequence of pairs.\<close>

definition dict_of_pairs :: "('k \<times> 'v) list \<Rightarrow> ('k, 'v) dict" where
  "dict_of_pairs ps = dict_update [] ps"

text \<open>\<^verbatim>\<open>d.get(k)\<close>\<close>

definition dict_get :: "('k, 'v) dict \<Rightarrow> 'k \<Rightarrow> 'v option" where
  "dict_get d k = map_of d k"

text \<open>The invariant of a dictionary: no key twice.\<close>

definition dict_ok :: "('k, 'v) dict \<Rightarrow> bool" where
  "dict_ok d = distinct (map fst d)"

section \<open>The scan result parser\<close>

text \<open>The security mode of a chunk, as the nested tests of \<^verbatim>\<open>_parse_cell\<close> compute it.\<close>

definition cell_encryption :: "string \<Rightarrow> string" where
  "cell_encryption cell_data =
     (if re_search (match_lit ''Encryption key:on'') cell_data \<noteq> None then
        (if re_search (match_ie ''WPA2'') cell_data \<noteq> None then ''WPA2''
         else if re_search (match_ie ''WPA'') cell_data \<noteq> None then ''WPA''
         else ''WEP'')
      else ''Open'')"

text \<open>
  \<^verbatim>\<open>_parse_cell\<close>. \<open>Inr None\<close> is the return of \<^verbatim>\<open>None\<close> for a chunk with no
  identifier, \<open>Inl e\<close> an exception leaving the function, and \<open>now\<close> the reading of
  the clock when the record is built.
\<close>

definition parse_cell :: "nat \<Rightarrow> nat \<Rightarrow> string \<Rightarrow> py_error + NetworkInfo option" where
  "parse_cell max_str_digits now cell_data =
     (case re_search match_bssid cell_data of
        None \<Rightarrow> Inr None
      | Some b \<Rightarrow>
          (case (case re_search match_signal cell_data of
                   None \<Rightarrow> Inr (- 100)
                 | Some g \<Rightarrow> py_int max_str_digits g) of
             Inl e \<Rightarrow> Inl e
           | Inr sig \<Rightarrow>
               Inr (Some \<lparr>bssid = b,
                          signal_strength = sig,
                          essid = re_search match_essid cell_data,
                          encryption = Some (cell_encryption cell_data),
                          frequency = map_option (\<lambda>v. v @ '' GHz'')
                                        (re_search match_freq cell_data),
                          last_seen = now\<rparr>)))"

text \<open>The log: one entry per call of the logger, with its level.\<close>

datatype log_level = DEBUG | INFO | WARNING | ERROR

datatype log_message =
    ScanCommandFailed
  | ScanTimedOut
  | ScanUnexpectedError
  | CellParseFailed
  | AlreadyRunning
  | StartedScanning
  | StoppedScanning
  | FoundNetworks nat
  | NoResults
  | ScanLoopError

type_synonym log = "(log_level \<times> log_message) list"

text \<open>
  The loop of \<^verbatim>\<open>_parse_scan_results\<close> over the chunks. \<open>clock i\<close> is the reading of the
  clock while chunk number \<open>i\<close> is parsed. An exception of \<^verbatim>\<open>_parse_cell\<close> is caught:
  a warning is logged and the loop goes on.
\<close>

fun parse_cells ::
  "nat \<Rightarrow> (nat \<Rightarrow> nat) \<Rightarrow> nat \<Rightarrow> string list \<Rightarrow>
   (string, NetworkInfo) dict \<times> log \<Rightarrow> (string, NetworkInfo) dict \<times> log" where
  "parse_cells lim clock i [] (networks, lg) = (networks, lg)"
| "parse_cells lim clock i (cell # cells) (networks, lg) =
     (case parse_cell lim (clock i) cell of
        Inl e \<Rightarrow> parse_cells lim clock (Suc i) cells (networks, lg @ [(WARNING, CellParseFailed)])
      | Inr network_info \<Rightarrow>
          (case network_info of
             Some info \<Rightarrow>
               if bssid info \<noteq> [] then
                 parse_cells lim clock (Suc i) cells (dict_setitem networks (bssid info) info, lg)
               else parse_cells lim clock (Suc i) cells (networks, lg)
           | None \<Rightarrow> parse_cells lim clock (Suc i) cells (networks, lg)))"

text \<open>The chunks: every piece of the split but the first, the banner.\<close>

definition cells_of :: "string \<Rightarrow> string list" where
  "cells_of scan_output = tl (re_split scan_output)"

text \<open>\<^verbatim>\<open>_parse_scan_results\<close>: the mapping it returns, and what it logs.\<close>

definition parse_scan_results ::
  "nat \<Rightarrow> (nat \<Rightarrow> nat) \<Rightarrow> string \<Rightarrow> (string, NetworkInfo) dict \<times> log" where
  "parse_scan_results lim clock scan_output =
     parse_cells lim clock 0 (cells_of scan_output) ([], [])"


section \<open>The scan executor\<close>

text \<open>The command line: the tool, the interface when one is set, and the verb.\<close>

definition scan_command :: "string option \<Rightarrow> string list" where
  "scan_command iface =
     [''sudo'', ''iwlist'']
       @ (case iface of None \<Rightarrow> [] | Some i \<Rightarrow> if i \<noteq> [] then [i] else [])
       @ [''scan'']"

text \<open>
  \<^verbatim>\<open>_scan_wifi_sync\<close>. \<open>run\<close> stands for \<^verbatim>\<open>subprocess.check_output\<close> with the decoding
  of its output (which replaces invalid bytes and cannot fail): for a command line it
  gives the text the tool printed, or the exception the call ends with
  (\<open>CalledProcessError\<close> for a nonzero exit status, \<open>TimeoutExpired\<close> after 30 seconds,
  \<open>FileNotFoundError\<close> when the binary is missing, \<open>OtherException\<close> or \<open>ValueError\<close>
  for any other subclass of \<^verbatim>\<open>Exception\<close>). The result is \<open>Inl e\<close> when the exception
  \<open>e\<close> leaves the function, and otherwise the mapping returned and the log written.
\<close>

definition scan_wifi_sync ::
  "nat \<Rightarrow> (nat \<Rightarrow> nat) \<Rightarrow> (string list \<Rightarrow> py_error + string) \<Rightarrow> string option \<Rightarrow>
   py_error + (string, NetworkInfo) dict \<times> log" where
  "scan_wifi_sync lim clock run iface =
     (case run (scan_command iface) of
        Inr result \<Rightarrow> Inr (parse_scan_results lim clock result)
      | Inl CalledProcessError \<Rightarrow> Inr ([], [(ERROR, ScanCommandFailed)])
      | Inl TimeoutExpired \<Rightarrow> Inr ([], [(ERROR, ScanTimedOut)])
      | Inl e \<Rightarrow> Inr ([], [(ERROR, ScanUnexpectedError)]))"

section \<open>The stand-alone nmcli scan (From GPT/wifi.py)\<close>

text \<open>
  The script \<^verbatim>\<open>wifi.py\<close> has a scan function of its own, \<^verbatim>\<open>scan_wifi\<close>, which is not
  part of the scanner above. It is modelled for comparison with \<^verbatim>\<open>_scan_wifi_sync\<close>.
  The characters that \<^verbatim>\<open>str.strip\<close> and \<^verbatim>\<open>str.split\<close> take for white space, among the
  code points below 256:
\<close>

definition is_space :: "char \<Rightarrow> bool" where
  "is_space c = (c \<in> set [CHR 0x09, CHR 0x0A, CHR 0x0B, CHR 0x0C, CHR 0x0D, CHR 0x1C, CHR 0x1D,
                            CHR 0x1E, CHR 0x1F, CHR 0x20, CHR 0x85, CHR 0xA0])"

text \<open>\<^verbatim>\<open>s.strip()\<close>\<close>

definition py_strip :: "string \<Rightarrow> string" where
  "py_strip s = rev (dropWhile is_space (rev (dropWhile is_space s)))"

text \<open>\<^verbatim>\<open>s.split(sep)\<close> for a separator of one character.\<close>

fun split_on :: "char \<Rightarrow> string \<Rightarrow> string list" where
  "split_on sep [] = [[]]"
| "split_on sep (c # cs) =
     (if c = sep then [] # split_on sep cs
      else (case split_on sep cs of [] \<Rightarrow> [[c]] | p # ps \<Rightarrow> (c # p) # ps))"

text \<open>
  \<^verbatim>\<open>s.split()\<close>: the words between runs of white space; \<open>w\<close> is the word being read,
  in reverse.
\<close>

fun split_ws :: "string \<Rightarrow> string \<Rightarrow> string list" where
  "split_ws w [] = (if w = [] then [] else [rev w])"
| "split_ws w (c # cs) =
     (if is_space c then (if w = [] then [] else [rev w]) @ split_ws [] cs
      else split_ws (c # w) cs)"

text \<open>What the function prints.\<close>

datatype nmcli_message = Scanning | ScanDone nat | NmcliFailed | NmcliNotFound

definition nmcli_command :: "string list" where
  "nmcli_command = [''nmcli'', ''-f'', ''BSSID,SIGNAL'', ''dev'', ''wifi'', ''list'', ''--rescan'', ''yes'']"

text \<open>
  The loop over the lines. \<open>to_int\<close> stands for \<^verbatim>\<open>int\<close> on an arbitrary word; an
  exception it raises leaves the loop.
\<close>

fun nmcli_rows ::
  "(string \<Rightarrow> py_error + int) \<Rightarrow> string list \<Rightarrow> (string, int) dict \<Rightarrow> py_error + (string, int) dict" where
  "nmcli_rows to_int [] found = Inr found"
| "nmcli_rows to_int (line # lines) found =
     (case split_ws [] line of
        b # rssi # rest \<Rightarrow>
          (case to_int rssi of
             Inl e \<Rightarrow> Inl e
           | Inr v \<Rightarrow> nmcli_rows to_int lines (dict_setitem found b v))
      | _ \<Rightarrow> nmcli_rows to_int lines found)"

text \<open>
  \<^verbatim>\<open>scan_wifi\<close>: the \<^verbatim>\<open>try\<close> block has handlers for \<^verbatim>\<open>CalledProcessError\<close> and
  \<^verbatim>\<open>FileNotFoundError\<close> and no others, and the call of the tool sets no timeout.
\<close>

definition scan_wifi ::
  "(string list \<Rightarrow> py_error + string) \<Rightarrow> (string \<Rightarrow> py_error + int) \<Rightarrow>
   py_error + (string, int) dict \<times> nmcli_message list" where
  "scan_wifi run to_int =
     (case (case run nmcli_command of
              Inl e \<Rightarrow> Inl e
            | Inr out \<Rightarrow> nmcli_rows to_int (tl (split_on newline (py_strip out))) []) of
        Inr found \<Rightarrow> Inr (found, [Scanning, ScanDone (length found)])
      | Inl CalledProcessError \<Rightarrow> Inr ([], [Scanning, NmcliFailed])
      | Inl FileNotFoundError \<Rightarrow> Inr ([], [Scanning, NmcliNotFound])
      | Inl e \<Rightarrow> Inl e)"

section \<open>The continuous scan coordinator\<close>

text \<open>
  The fields of a \<^verbatim>\<open>WiFiScanner\<close> that its methods read or write. \<^verbatim>\<open>_scan_task\<close> is
  the handle of the task that \<^verbatim>\<open>asyncio.create_task\<close> returned. (\<^verbatim>\<open>scan_interval\<close>,
  a float, only sets how long the loop sleeps; durations are not modelled.)
\<close>

record WiFiScanner =
  interface :: "string option"
  wifi_data :: "(string, NetworkInfo) dict"
  scan_task :: "nat option"
  running :: bool

text \<open>\<^verbatim>\<open>__init__\<close>\<close>

definition new_scanner :: "string option \<Rightarrow> WiFiScanner" where
  "new_scanner iface =
     \<lparr>interface = iface, wifi_data = [], scan_task = None, running = False\<rparr>"

text \<open>
  What the scanner acts on besides its own fields: the tasks of the event loop that run
  its \<^verbatim>\<open>_scan_loop\<close>, each by its handle (the position in the list), and the log.
  The methods are coroutines of one cooperative scheduler and are called one after the
  other from a single control flow; each call is one step from state to state.
\<close>

datatype task_state = Active | Finished

record runtime =
  tasks :: "task_state list"
  logged :: log

definition active_loops :: "runtime \<Rightarrow> nat" where
  "active_loops rt = length (filter (\<lambda>t. t = Active) (tasks rt))"

text \<open>The state right after the scanner is built: no task, nothing logged.\<close>

definition initial :: "string option \<Rightarrow> WiFiScanner \<times> runtime" where
  "initial iface = (new_scanner iface, \<lparr>tasks = [], logged = []\<rparr>)"

text \<open>\<^verbatim>\<open>start_continuous_scan\<close>\<close>

definition start_continuous_scan :: "WiFiScanner \<times> runtime \<Rightarrow> WiFiScanner \<times> runtime" where
  "start_continuous_scan st =
     (case st of (self, rt) \<Rightarrow>
        if running self then (self, rt\<lparr>logged := logged rt @ [(WARNING, AlreadyRunning)]\<rparr>)
        else (self\<lparr>running := True, scan_task := Some (length (tasks rt))\<rparr>,
              rt\<lparr>tasks := tasks rt @ [Active],
                 logged := logged rt @ [(INFO, StartedScanning)]\<rparr>))"

text \<open>
  \<^verbatim>\<open>stop_continuous_scan\<close>: the task is cancelled and awaited; it ends either by leaving
  its loop on the \<^verbatim>\<open>CancelledError\<close> or with that error, which the method swallows.
\<close>

definition stop_continuous_scan :: "WiFiScanner \<times> runtime \<Rightarrow> WiFiScanner \<times> runtime" where
  "stop_continuous_scan st =
     (case st of (self, rt) \<Rightarrow>
        (case scan_task self of
           None \<Rightarrow> (self, rt)
         | Some t \<Rightarrow>
             if \<not> running self then (self, rt)
             else (self\<lparr>running := False\<rparr>,
                   rt\<lparr>tasks := (tasks rt)[t := Finished],
                      logged := logged rt @ [(INFO, StoppedScanning)]\<rparr>)))"

text \<open>
  One pass of the body of \<^verbatim>\<open>_scan_loop\<close>, from the mapping that the scan returned:
  a mapping that is not empty is merged into the cache.
\<close>

definition scan_loop_merge ::
  "(string, NetworkInfo) dict \<Rightarrow> WiFiScanner \<times> runtime \<Rightarrow> WiFiScanner \<times> runtime" where
  "scan_loop_merge scan_results st =
     (case st of (self, rt) \<Rightarrow>
        if scan_results \<noteq> [] then
          (self\<lparr>wifi_data := dict_update (wifi_data self) scan_results\<rparr>,
           rt\<lparr>logged := logged rt @ [(DEBUG, FoundNetworks (length scan_results))]\<rparr>)
        else (self, rt\<lparr>logged := logged rt @ [(WARNING, NoResults)]\<rparr>))"

text \<open>
  One pass of the loop of \<^verbatim>\<open>_scan_loop\<close> without its sleep: the scan, then the merge.
  An exception of the scan would be logged as an error of the loop.
\<close>

definition scan_loop_pass ::
  "nat \<Rightarrow> (nat \<Rightarrow> nat) \<Rightarrow> (string list \<Rightarrow> py_error + string) \<Rightarrow>
   WiFiScanner \<times> runtime \<Rightarrow> WiFiScanner \<times> runtime" where
  "scan_loop_pass lim clock run st =
     (case st of (self, rt) \<Rightarrow>
        (case scan_wifi_sync lim clock run (interface self) of
           Inr (scan_results, lg) \<Rightarrow>
             scan_loop_merge scan_results (self, rt\<lparr>logged := logged rt @ lg\<rparr>)
         | Inl e \<Rightarrow> (self, rt\<lparr>logged := logged rt @ [(ERROR, ScanLoopError)]\<rparr>)))"

text \<open>
  \<^verbatim>\<open>get_networks\<close>: the value returned, and the scanner after the call. The dictionary
  comprehension stores the items that pass the test into a new dictionary, in order.
\<close>

definition get_networks ::
  "WiFiScanner \<Rightarrow> int \<Rightarrow> (string, NetworkInfo) dict \<times> WiFiScanner" where
  "get_networks self min_signal =
     (dict_of_pairs (filter (\<lambda>(b, info). signal_strength info \<ge> min_signal) (wifi_data self)),
      self)"

text \<open>The call with the default argument, \<^verbatim>\<open>min_signal = -100\<close>.\<close>

definition get_networks_default :: "WiFiScanner \<Rightarrow> (string, NetworkInfo) dict \<times> WiFiScanner" where
  "get_networks_default self = get_networks self (- 100)"

text \<open>
  \<^verbatim>\<open>sorted(xs, key=f, reverse=True)\<close>: CPython reverses the list, sorts it with its
  stable sort and reverses the result, so that items with equal keys keep their order.
  A stable sort has one possible result; \<open>sort_key\<close> is a stable sort.
\<close>

definition sorted_reverse :: "('a \<Rightarrow> int) \<Rightarrow> 'a list \<Rightarrow> 'a list" where
  "sorted_reverse f xs = rev (sort_key f (rev xs))"

text \<open>
  The slice \<^verbatim>\<open>xs[:n]\<close>: a negative bound counts from the end, and a bound outside
  the list is clipped to it.
\<close>

definition slice_to :: "'a list \<Rightarrow> int \<Rightarrow> 'a list" where
  "slice_to xs n =
     (if n < 0 then take (nat (max (int (length xs) + n) 0)) xs else take (nat n) xs)"

text \<open>\<^verbatim>\<open>get_strongest_networks\<close>: the value returned, and the scanner after the call.\<close>

definition get_strongest_networks ::
  "WiFiScanner \<Rightarrow> int \<Rightarrow> (string, NetworkInfo) dict \<times> WiFiScanner" where
  "get_strongest_networks self count =
     (dict_of_pairs
        (slice_to (sorted_reverse (\<lambda>x. signal_strength (snd x)) (wifi_data self)) count),
      self)"

section \<open>Notions used to state the claims\<close>

text \<open>
  The information-element marker of the classification table: \<^verbatim>\<open>IE:\<close> and, behind it on
  the same line, the name of the protocol.
\<close>

definition ie_marker :: "string \<Rightarrow> string \<Rightarrow> bool" where
  "ie_marker lit text = (\<exists>pre mid post. text = pre @ ''IE:'' @ mid @ lit @ post \<and> newline \<notin> set mid)"

text \<open>
  The text behind a \<^verbatim>\<open>Signal level\<close> label holds a value that can be read when it is an
  equals sign, an optional minus sign and at least one digit, whatever follows.
\<close>

definition signal_value_parsable :: "string \<Rightarrow> bool" where
  "signal_value_parsable v =
     (\<exists>sgn ds rest. v = ''='' @ sgn @ ds @ rest \<and> (sgn = [] \<or> sgn = ''-'') \<and>
        ds \<noteq> [] \<and> list_all is_digit ds)"

text \<open>
  The identifier of a chunk (what the first search of \<^verbatim>\<open>_parse_cell\<close> finds), whether
  the chunk is well-formed (it has an identifier), whether parsing the chunk raises (this
  does not depend on the clock), and whether the chunk parses to a record.
\<close>

definition cell_id :: "string \<Rightarrow> string option" where
  "cell_id c = re_search match_bssid c"

definition has_identifier :: "string \<Rightarrow> bool" where
  "has_identifier c = (cell_id c \<noteq> None)"

definition cell_raises :: "nat \<Rightarrow> string \<Rightarrow> bool" where
  "cell_raises lim c = isl (parse_cell lim 0 c)"

definition cell_parses :: "nat \<Rightarrow> string \<Rightarrow> bool" where
  "cell_parses lim c = (cell_id c \<noteq> None \<and> \<not> cell_raises lim c)"

text \<open>The items that the loop over the chunks stores, one after the other.\<close>

fun cell_records :: "nat \<Rightarrow> (nat \<Rightarrow> nat) \<Rightarrow> nat \<Rightarrow> string list \<Rightarrow> (string \<times> NetworkInfo) list" where
  "cell_records lim clock i [] = []"
| "cell_records lim clock i (c # cs) =
     (case parse_cell lim (clock i) c of
        Inr (Some r) \<Rightarrow> if bssid r \<noteq> [] then [(bssid r, r)] else []
      | _ \<Rightarrow> []) @ cell_records lim clock (Suc i) cs"

text \<open>
  The states of the coordinator that calls of its methods and passes of its loop lead to,
  and the invariant that ties the flag \<^verbatim>\<open>_running\<close> to the tasks of the event loop.
\<close>

inductive reachable :: "WiFiScanner \<times> runtime \<Rightarrow> bool" where
  init: "reachable (initial iface)"
| start: "reachable st \<Longrightarrow> reachable (start_continuous_scan st)"
| stop: "reachable st \<Longrightarrow> reachable (stop_continuous_scan st)"
| merge: "reachable st \<Longrightarrow> reachable (scan_loop_merge res st)"
| pass: "reachable st \<Longrightarrow> reachable (scan_loop_pass lim clock run st)"

definition lifecycle_inv :: "WiFiScanner \<times> runtime \<Rightarrow> bool" where
  "lifecycle_inv st =
     (case st of (self, rt) \<Rightarrow>
        if running self then
          (case scan_task self of
             None \<Rightarrow> False
           | Some t \<Rightarrow> t < length (tasks rt) \<and> tasks rt ! t = Active) \<and> active_loops rt = 1
        else active_loops rt = 0)"

section \<open>Facts about the text primitives\<close>

lemma re_search_None_suffix:
  "re_search m s = None \<longleftrightarrow> (\<forall>t. suffix t s \<longrightarrow> m t = None)"
  by (induction s) (auto simp: suffix_Cons split: option.splits)

lemma re_search_None_iff:
  "re_search m s = None \<longleftrightarrow> (\<forall>pre post. s = pre @ post \<longrightarrow> m post = None)"
  unfolding re_search_None_suffix suffix_def by blast

lemma re_search_not_None:
  "re_search m s \<noteq> None \<longleftrightarrow> (\<exists>pre post. s = pre @ post \<and> m post \<noteq> None)"
  by (simp add: re_search_None_iff)

lemma strip_prefix_append: "strip_prefix p (p @ r) = Some r"
  by (simp add: strip_prefix_Some)

lemma strip_prefix_not_None: "strip_prefix p s \<noteq> None \<longleftrightarrow> (\<exists>r. s = p @ r)"
  by (cases "strip_prefix p s") (auto simp: strip_prefix_Some strip_prefix_None)

lemma match_lit_not_None: "match_lit lit s \<noteq> None \<longleftrightarrow> (\<exists>r. s = lit @ r)"
  unfolding match_lit_def
  by (auto simp: strip_prefix_Some strip_prefix_append split: option.splits)

lemma re_search_lit_iff: "re_search (match_lit lit) s \<noteq> None \<longleftrightarrow> sublist lit s"
proof -
  have "re_search (match_lit lit) s \<noteq> None \<longleftrightarrow>
        (\<exists>pre post. s = pre @ post \<and> match_lit lit post \<noteq> None)"
    by (rule re_search_not_None)
  also have "\<dots> \<longleftrightarrow> sublist lit s"
    unfolding match_lit_not_None sublist_def by blast
  finally show ?thesis .
qed

lemma dotstar_lit_iff:
  "dotstar_lit lit s \<longleftrightarrow> (\<exists>mid post. s = mid @ lit @ post \<and> newline \<notin> set mid)"
proof (induction s)
  case Nil
  show ?case
    using strip_prefix_not_None[of lit "[]"] by auto
next
  case (Cons c cs)
  have pre: "strip_prefix lit (c # cs) \<noteq> None \<longleftrightarrow> (\<exists>post. c # cs = lit @ post)"
    by (rule strip_prefix_not_None)
  show ?case
  proof
    assume "dotstar_lit lit (c # cs)"
    then consider "\<exists>post. c # cs = lit @ post" | "c \<noteq> newline" "dotstar_lit lit cs"
      using pre by auto
    then show "\<exists>mid post. c # cs = mid @ lit @ post \<and> newline \<notin> set mid"
    proof cases
      case 1
      then obtain post where "c # cs = [] @ lit @ post \<and> newline \<notin> set []" by auto
      then show ?thesis by blast
    next
      case 2
      then obtain mid post where "cs = mid @ lit @ post" "newline \<notin> set mid"
        using Cons.IH by auto
      then have "c # cs = (c # mid) @ lit @ post \<and> newline \<notin> set (c # mid)"
        using 2(1) by auto
      then show ?thesis by blast
    qed
  next
    assume "\<exists>mid post. c # cs = mid @ lit @ post \<and> newline \<notin> set mid"
    then obtain mid post where e: "c # cs = mid @ lit @ post" "newline \<notin> set mid" by auto
    show "dotstar_lit lit (c # cs)"
    proof (cases mid)
      case Nil
      with e have "\<exists>post. c # cs = lit @ post" by auto
      with pre show ?thesis by simp
    next
      case (Cons a mid')
      then have "c = a" "cs = mid' @ lit @ post" "newline \<notin> set mid'" "a \<noteq> newline"
        using e by auto
      then have "dotstar_lit lit cs" "c \<noteq> newline" using Cons.IH by auto
      then show ?thesis by simp
    qed
  qed
qed

lemma match_ie_not_None:
  "match_ie lit s \<noteq> None \<longleftrightarrow> (\<exists>mid post. s = ''IE:'' @ mid @ lit @ post \<and> newline \<notin> set mid)"
proof (cases "strip_prefix ''IE:'' s")
  case None
  then have "\<forall>r. s \<noteq> ''IE:'' @ r" using strip_prefix_None[of "''IE:''" s] by simp
  then have "\<not> (\<exists>mid post. s = ''IE:'' @ mid @ lit @ post \<and> newline \<notin> set mid)" by blast
  with None show ?thesis by (simp add: match_ie_def)
next
  case (Some r)
  then have s: "s = ''IE:'' @ r" using strip_prefix_Some[of "''IE:''" s r] by simp
  have "match_ie lit s \<noteq> None \<longleftrightarrow> dotstar_lit lit r"
    using Some by (simp add: match_ie_def)
  also have "\<dots> \<longleftrightarrow> (\<exists>mid post. r = mid @ lit @ post \<and> newline \<notin> set mid)"
    by (rule dotstar_lit_iff)
  also have "\<dots> \<longleftrightarrow> (\<exists>mid post. s = ''IE:'' @ mid @ lit @ post \<and> newline \<notin> set mid)"
    unfolding s by simp
  finally show ?thesis .
qed

lemma re_search_ie_iff: "re_search (match_ie lit) s \<noteq> None \<longleftrightarrow> ie_marker lit s"
proof -
  have "re_search (match_ie lit) s \<noteq> None \<longleftrightarrow> (\<exists>pre post. s = pre @ post \<and> match_ie lit post \<noteq> None)"
    by (rule re_search_not_None)
  also have "\<dots> \<longleftrightarrow> ie_marker lit s"
    unfolding match_ie_not_None ie_marker_def by blast
  finally show ?thesis .
qed

lemma signed_digits_not_None:
  "signed_digits r \<noteq> None \<longleftrightarrow>
     (\<exists>sgn ds rest. r = sgn @ ds @ rest \<and> (sgn = [] \<or> sgn = ''-'') \<and> ds \<noteq> [] \<and> list_all is_digit ds)"
proof
  assume a: "signed_digits r \<noteq> None"
  define sgn where "sgn = (if take 1 r = ''-'' then ''-'' else '''')"
  define ds where "ds = takeWhile is_digit (drop (length sgn) r)"
  from a have nz: "ds \<noteq> []"
    by (auto simp: signed_digits_def Let_def sgn_def ds_def split: if_splits)
  have "r = take (length sgn) r @ drop (length sgn) r" by simp
  moreover have "take (length sgn) r = sgn" by (simp add: sgn_def)
  moreover have "drop (length sgn) r = ds @ dropWhile is_digit (drop (length sgn) r)"
    by (simp add: ds_def)
  ultimately have "r = sgn @ ds @ dropWhile is_digit (drop (length sgn) r)" by metis
  moreover have "sgn = [] \<or> sgn = ''-''" by (simp add: sgn_def)
  moreover have "list_all is_digit ds"
    unfolding ds_def list_all_iff using set_takeWhileD by fastforce
  ultimately show "\<exists>sgn ds rest. r = sgn @ ds @ rest \<and> (sgn = [] \<or> sgn = ''-'') \<and> ds \<noteq> [] \<and> list_all is_digit ds"
    using nz by blast
next
  assume "\<exists>sgn ds rest. r = sgn @ ds @ rest \<and> (sgn = [] \<or> sgn = ''-'') \<and> ds \<noteq> [] \<and> list_all is_digit ds"
  then obtain sgn ds rest where r: "r = sgn @ ds @ rest" and s: "sgn = [] \<or> sgn = ''-''"
    and nz: "ds \<noteq> []" and d: "list_all is_digit ds" by blast
  from nz obtain x xs where ds: "ds = x # xs" by (cases ds) auto
  with d have x: "is_digit x" by simp
  then have xm: "x \<noteq> CHR ''-''" by (auto simp: is_digit_def)
  from s show "signed_digits r \<noteq> None"
  proof
    assume "sgn = []"
    with r ds x xm show ?thesis by (simp add: signed_digits_def Let_def)
  next
    assume "sgn = ''-''"
    with r ds x show ?thesis by (simp add: signed_digits_def Let_def)
  qed
qed

lemma match_signal_not_None:
  "match_signal s \<noteq> None \<longleftrightarrow> (\<exists>v. s = ''Signal level'' @ v \<and> signal_value_parsable v)"
proof (cases "strip_prefix ''Signal level='' s")
  case None
  then have "\<forall>r. s \<noteq> ''Signal level='' @ r" using strip_prefix_None[of "''Signal level=''" s] by simp
  then have "\<not> (\<exists>v. s = ''Signal level'' @ v \<and> signal_value_parsable v)"
    by (auto simp: signal_value_parsable_def)
  with None show ?thesis by (simp add: match_signal_def)
next
  case (Some r)
  then have s: "s = ''Signal level='' @ r" using strip_prefix_Some[of "''Signal level=''" s r] by simp
  have "match_signal s \<noteq> None \<longleftrightarrow> signed_digits r \<noteq> None"
    using Some by (simp add: match_signal_def)
  also have "\<dots> \<longleftrightarrow> signal_value_parsable (''='' @ r)"
    unfolding signed_digits_not_None signal_value_parsable_def by simp
  also have "\<dots> \<longleftrightarrow> (\<exists>v. s = ''Signal level'' @ v \<and> signal_value_parsable v)"
    unfolding s by simp
  finally show ?thesis .
qed

lemma signal_unparsable_iff:
  "re_search match_signal cell = None \<longleftrightarrow>
     (\<forall>pre v. cell = pre @ ''Signal level'' @ v \<longrightarrow> \<not> signal_value_parsable v)"
proof -
  have "re_search match_signal cell \<noteq> None \<longleftrightarrow>
        (\<exists>pre post. cell = pre @ post \<and> match_signal post \<noteq> None)"
    by (rule re_search_not_None)
  also have "\<dots> \<longleftrightarrow> (\<exists>pre v. cell = pre @ ''Signal level'' @ v \<and> signal_value_parsable v)"
    unfolding match_signal_not_None by blast
  finally show ?thesis by blast
qed

lemma signal_value_parsable_match:
  "signal_value_parsable v \<longleftrightarrow> match_signal (''Signal level'' @ v) \<noteq> None"
  unfolding match_signal_not_None by simp

lemma parse_cell_Some:
  assumes "parse_cell lim now cell = Inr (Some r)"
  shows "re_search match_bssid cell = Some (bssid r)"
    and "encryption r = Some (cell_encryption cell)"
    and "re_search match_signal cell = None \<Longrightarrow> signal_strength r = - 100"
    and "last_seen r = now"
  using assms
  by (auto simp: parse_cell_def split: option.splits sum.splits)

section \<open>Facts about dictionaries, sorting and the coordinator\<close>

lemma dict_setitem_keys:
  "map fst (dict_setitem d k v) = (if k \<in> fst ` set d then map fst d else map fst d @ [k])"
proof (induction d)
  case Nil
  then show ?case by simp
next
  case (Cons p d)
  obtain a b where p: "p = (a, b)" by (cases p)
  show ?case
  proof (cases "a = k")
    case True
    then show ?thesis by (simp add: p)
  next
    case False
    then show ?thesis using Cons.IH by (simp add: p)
  qed
qed

lemma dict_setitem_new: "k \<notin> fst ` set d \<Longrightarrow> dict_setitem d k v = d @ [(k, v)]"
  by (induction d) auto

lemma dict_setitem_ok: "dict_ok d \<Longrightarrow> dict_ok (dict_setitem d k v)"
  by (simp add: dict_ok_def dict_setitem_keys)

lemma map_of_dict_setitem: "map_of (dict_setitem d k v) = (map_of d)(k \<mapsto> v)"
  by (induction d) (auto simp: fun_eq_iff)

lemma dict_setitem_twice: "dict_setitem (dict_setitem d k v) k w = dict_setitem d k w"
  by (induction d) auto

lemma dict_setitem_swap:
  "k \<noteq> k' \<Longrightarrow> k \<in> fst ` set d \<or> k' \<in> fst ` set d \<Longrightarrow>
   dict_setitem (dict_setitem d k v) k' w = dict_setitem (dict_setitem d k' w) k v"
proof (induction d)
  case Nil
  then show ?case by simp
next
  case (Cons p d)
  obtain a b where p: "p = (a, b)" by (cases p)
  show ?case
  proof (cases "a = k \<or> a = k'")
    case True
    then show ?thesis using Cons.prems(1) p by auto
  next
    case False
    then have "k \<in> fst ` set d \<or> k' \<in> fst ` set d" using Cons.prems(2) p by auto
    then show ?thesis using Cons.IH[OF Cons.prems(1)] False p by simp
  qed
qed

lemma dict_update_Nil: "dict_update d [] = d"
  by (simp add: dict_update_def)

lemma dict_update_Cons: "dict_update d ((k, v) # ps) = dict_update (dict_setitem d k v) ps"
  by (simp add: dict_update_def)

lemma dict_update_snoc: "dict_update d (ps @ [(k, v)]) = dict_setitem (dict_update d ps) k v"
  by (simp add: dict_update_def)

lemma dict_update_keys_subset: "fst ` set d \<subseteq> fst ` set (dict_update d ps)"
proof (induction ps arbitrary: d)
  case Nil
  then show ?case by (simp add: dict_update_Nil)
next
  case (Cons p ps)
  obtain k v where p: "p = (k, v)" by (cases p)
  have "fst ` set d \<subseteq> fst ` set (dict_setitem d k v)"
    using dict_setitem_keys[of d k v] by (metis (no_types, lifting) list.set_map set_append subset_refl sup_ge1)
  also have "\<dots> \<subseteq> fst ` set (dict_update (dict_setitem d k v) ps)" by (rule Cons.IH)
  finally show ?case by (simp add: p dict_update_Cons)
qed

lemma dict_update_keys: "fst ` set (dict_update d ps) = fst ` set d \<union> fst ` set ps"
proof (induction ps arbitrary: d)
  case Nil
  then show ?case by (simp add: dict_update_Nil)
next
  case (Cons p ps)
  obtain k v where p: "p = (k, v)" by (cases p)
  have "fst ` set (dict_setitem d k v) = insert k (fst ` set d)"
    using arg_cong[OF dict_setitem_keys[of d k v], of set] by (auto split: if_splits)
  then show ?case using Cons.IH[of "dict_setitem d k v"] by (simp add: p dict_update_Cons)
qed

lemma dict_update_ok: "dict_ok d \<Longrightarrow> dict_ok (dict_update d ps)"
proof (induction ps arbitrary: d)
  case Nil
  then show ?case by (simp add: dict_update_Nil)
next
  case (Cons p ps)
  obtain k v where p: "p = (k, v)" by (cases p)
  show ?case using Cons.IH[OF dict_setitem_ok[OF Cons.prems, of k v]] by (simp add: p dict_update_Cons)
qed

lemma map_of_dict_update: "map_of (dict_update d ps) = map_of d ++ map_of (rev ps)"
proof (induction ps arbitrary: d)
  case Nil
  then show ?case by (simp add: dict_update_Nil)
next
  case (Cons p ps)
  obtain k v where p: "p = (k, v)" by (cases p)
  have "map_of (dict_update d (p # ps)) = map_of (dict_setitem d k v) ++ map_of (rev ps)"
    unfolding p dict_update_Cons by (rule Cons.IH)
  also have "\<dots> = (map_of d)(k \<mapsto> v) ++ map_of (rev ps)"
    by (simp only: map_of_dict_setitem)
  also have "\<dots> = map_of d ++ map_of (rev (p # ps))"
    by (simp add: p map_add_def fun_eq_iff split: option.splits)
  finally show ?case .
qed

lemma dict_update_absorb:
  "fst ` set ps \<subseteq> fst ` set e \<Longrightarrow>
   dict_setitem (dict_update (dict_setitem e k v) ps) k v = dict_setitem (dict_update e ps) k v"
proof (induction ps arbitrary: e)
  case Nil
  then show ?case by (simp add: dict_update_Nil dict_setitem_twice)
next
  case (Cons p ps)
  obtain k' v' where p: "p = (k', v')" by (cases p)
  from Cons.prems p have k': "k' \<in> fst ` set e" and sub: "fst ` set ps \<subseteq> fst ` set e" by auto
  have sub': "fst ` set ps \<subseteq> fst ` set (dict_setitem e k' v')"
    using sub dict_update_keys[of e "[(k', v')]"] by (auto simp: dict_update_Cons dict_update_Nil)
  show ?case
  proof (cases "k' = k")
    case True
    then show ?thesis by (simp add: p dict_update_Cons dict_setitem_twice)
  next
    case False
    then have "dict_setitem (dict_setitem e k v) k' v' = dict_setitem (dict_setitem e k' v') k v"
      using k' by (intro dict_setitem_swap) auto
    then show ?thesis using Cons.IH[OF sub'] by (simp add: p dict_update_Cons)
  qed
qed

lemma dict_update_idem: "dict_update (dict_update d ps) ps = dict_update d ps"
proof (induction ps rule: rev_induct)
  case Nil
  then show ?case by (simp add: dict_update_Nil)
next
  case (snoc p ps)
  obtain k v where p: "p = (k, v)" by (cases p)
  let ?e = "dict_update d ps"
  have sub: "fst ` set ps \<subseteq> fst ` set ?e" by (simp add: dict_update_keys)
  have "dict_update (dict_update d (ps @ [p])) (ps @ [p])
        = dict_setitem (dict_update (dict_setitem ?e k v) ps) k v"
    by (simp add: p dict_update_snoc)
  also have "\<dots> = dict_setitem (dict_update ?e ps) k v" by (rule dict_update_absorb[OF sub])
  also have "\<dots> = dict_setitem ?e k v" by (simp add: snoc.IH)
  also have "\<dots> = dict_update d (ps @ [p])" by (simp add: p dict_update_snoc)
  finally show ?case .
qed

lemma dict_update_fresh:
  "distinct (map fst ps) \<Longrightarrow> fst ` set ps \<inter> fst ` set d = {} \<Longrightarrow> dict_update d ps = d @ ps"
proof (induction ps arbitrary: d)
  case Nil
  then show ?case by (simp add: dict_update_Nil)
next
  case (Cons p ps)
  obtain k v where p: "p = (k, v)" by (cases p)
  from Cons.prems p have k: "k \<notin> fst ` set d" and kp: "k \<notin> fst ` set ps"
    and dp: "distinct (map fst ps)" and dj: "fst ` set ps \<inter> fst ` set d = {}" by auto
  have e: "dict_setitem d k v = d @ [(k, v)]" by (rule dict_setitem_new[OF k])
  have "fst ` set ps \<inter> fst ` set (d @ [(k, v)]) = {}" using dj kp by auto
  then have "dict_update (d @ [(k, v)]) ps = (d @ [(k, v)]) @ ps" using Cons.IH[OF dp] by blast
  then show ?case by (simp add: p dict_update_Cons e)
qed

lemma dict_of_pairs_distinct: "distinct (map fst ps) \<Longrightarrow> dict_of_pairs ps = ps"
  using dict_update_fresh[of ps "[]"] by (simp add: dict_of_pairs_def)

lemma sorted_reverse_length: "length (sorted_reverse f xs) = length xs"
  by (simp add: sorted_reverse_def)

lemma sorted_reverse_set: "set (sorted_reverse f xs) = set xs"
  by (simp add: sorted_reverse_def)

lemma sorted_reverse_desc: "sorted_wrt (\<lambda>x y. f x \<ge> f y) (sorted_reverse f xs)"
proof -
  have "sorted (map f (sort_key f (rev xs)))" by (rule sorted_sort_key)
  then have "sorted_wrt (\<lambda>x y. f x \<le> f y) (sort_key f (rev xs))"
    by (simp add: sorted_map)
  then show ?thesis
    by (simp add: sorted_reverse_def sorted_wrt_rev)
qed

lemma sorted_reverse_distinct_keys:
  "distinct (map g xs) \<Longrightarrow> distinct (map g (sorted_reverse f xs))"
  by (simp add: sorted_reverse_def distinct_map rev_map[symmetric])

lemma slice_to_nonneg: "0 \<le> n \<Longrightarrow> slice_to xs n = take (nat n) xs"
  by (simp add: slice_to_def)

lemma slice_to_neg: "n < 0 \<Longrightarrow> slice_to xs n = take (nat (max (int (length xs) + n) 0)) xs"
  by (simp add: slice_to_def)

lemma slice_to_take: "\<exists>m. slice_to xs n = take m xs"
  by (auto simp: slice_to_def)

lemma strongest_is_slice:
  assumes "dict_ok (wifi_data self)"
  shows "fst (get_strongest_networks self count) =
         slice_to (sorted_reverse (\<lambda>x. signal_strength (snd x)) (wifi_data self)) count"
proof -
  let ?s = "sorted_reverse (\<lambda>x. signal_strength (snd x)) (wifi_data self)"
  obtain m where m: "slice_to ?s count = take m ?s" using slice_to_take by blast
  have "distinct (map fst ?s)"
    using assms by (simp add: dict_ok_def sorted_reverse_distinct_keys)
  then have "distinct (map fst (take m ?s))"
    by (simp add: take_map[symmetric] distinct_take)
  then have "dict_of_pairs (take m ?s) = take m ?s" by (rule dict_of_pairs_distinct)
  then show ?thesis by (simp add: get_strongest_networks_def m)
qed

lemma networks_is_filter:
  assumes "dict_ok (wifi_data self)"
  shows "fst (get_networks self m) =
         filter (\<lambda>(b, info). signal_strength info \<ge> m) (wifi_data self)"
proof -
  have "distinct (map fst (filter (\<lambda>(b, info). signal_strength info \<ge> m) (wifi_data self)))"
    using assms by (simp add: dict_ok_def distinct_map_filter)
  then show ?thesis by (simp add: get_networks_def dict_of_pairs_distinct)
qed

lemma count_active_finish:
  "t < length xs \<Longrightarrow> xs ! t = Active \<Longrightarrow>
   length (filter (\<lambda>x. x = Active) (xs[t := Finished])) = length (filter (\<lambda>x. x = Active) xs) - 1"
proof (induction xs arbitrary: t)
  case Nil
  then show ?case by simp
next
  case (Cons x xs)
  show ?case
  proof (cases t)
    case 0
    then show ?thesis using Cons.prems by simp
  next
    case (Suc n)
    then have n: "n < length xs" "xs ! n = Active" using Cons.prems by auto
    then have "xs \<noteq> []" "filter (\<lambda>x. x = Active) xs \<noteq> []"
      by (auto simp: filter_empty_conv) (metis nth_mem)
    then have "0 < length (filter (\<lambda>x. x = Active) xs)" by simp
    then show ?thesis using Cons.IH[OF n] Suc by auto
  qed
qed

lemma start_inv: "lifecycle_inv st \<Longrightarrow> lifecycle_inv (start_continuous_scan st)"
  by (cases st)
     (auto simp: lifecycle_inv_def start_continuous_scan_def active_loops_def nth_append
           split: option.splits)

lemma stop_inv: "lifecycle_inv st \<Longrightarrow> lifecycle_inv (stop_continuous_scan st)"
proof -
  assume inv: "lifecycle_inv st"
  obtain self rt where st: "st = (self, rt)" by (cases st)
  show ?thesis
  proof (cases "running self")
    case False
    then have "stop_continuous_scan st = st"
      by (simp add: st stop_continuous_scan_def split: option.splits)
    with inv show ?thesis by simp
  next
    case True
    with inv st obtain t where t: "scan_task self = Some t" "t < length (tasks rt)"
      "tasks rt ! t = Active" and one: "active_loops rt = 1"
      by (auto simp: lifecycle_inv_def split: option.splits)
    have "length (filter (\<lambda>x. x = Active) ((tasks rt)[t := Finished])) =
          length (filter (\<lambda>x. x = Active) (tasks rt)) - 1"
      by (rule count_active_finish[OF t(2) t(3)])
    with one have "active_loops (rt\<lparr>tasks := (tasks rt)[t := Finished],
        logged := logged rt @ [(INFO, StoppedScanning)]\<rparr>) = 0"
      by (simp add: active_loops_def)
    then show ?thesis using True t(1)
      by (simp add: st stop_continuous_scan_def lifecycle_inv_def)
  qed
qed

lemma merge_inv: "lifecycle_inv st \<Longrightarrow> lifecycle_inv (scan_loop_merge res st)"
  by (cases st)
     (auto simp: lifecycle_inv_def scan_loop_merge_def active_loops_def split: option.splits)

lemma logged_inv: "lifecycle_inv (self, rt\<lparr>logged := l\<rparr>) = lifecycle_inv (self, rt)"
  by (simp add: lifecycle_inv_def active_loops_def split: option.splits)

lemma pass_inv: "lifecycle_inv st \<Longrightarrow> lifecycle_inv (scan_loop_pass lim clock run st)"
proof -
  assume inv: "lifecycle_inv st"
  obtain self rt where st: "st = (self, rt)" by (cases st)
  show ?thesis
  proof (cases "scan_wifi_sync lim clock run (interface self)")
    case (Inl e)
    then show ?thesis using inv by (simp add: st scan_loop_pass_def logged_inv)
  next
    case (Inr x)
    obtain res lg where x: "x = (res, lg)" by (cases x)
    have "lifecycle_inv (self, rt\<lparr>logged := logged rt @ lg\<rparr>)"
      using inv by (simp add: st logged_inv)
    then have "lifecycle_inv (scan_loop_merge res (self, rt\<lparr>logged := logged rt @ lg\<rparr>))"
      by (rule merge_inv)
    then show ?thesis using Inr x by (simp add: st scan_loop_pass_def)
  qed
qed

lemma reachable_inv: "reachable st \<Longrightarrow> lifecycle_inv st"
proof (induction rule: reachable.induct)
  case (init iface)
  show ?case by (simp add: lifecycle_inv_def initial_def new_scanner_def active_loops_def)
next
  case (start st)
  then show ?case by (simp add: start_inv)
next
  case (stop st)
  then show ?case by (simp add: stop_inv)
next
  case (merge st res)
  then show ?case by (simp add: merge_inv)
next
  case (pass st lim clock run)
  then show ?case by (simp add: pass_inv)
qed

lemma start_cache: "wifi_data (fst (start_continuous_scan st)) = wifi_data (fst st)"
  by (cases st) (simp add: start_continuous_scan_def)

lemma stop_cache: "wifi_data (fst (stop_continuous_scan st)) = wifi_data (fst st)"
  by (cases st) (simp add: stop_continuous_scan_def split: option.splits)

lemma merge_cache_ok:
  "dict_ok (wifi_data (fst st)) \<Longrightarrow> dict_ok (wifi_data (fst (scan_loop_merge res st)))"
  by (cases st) (simp add: scan_loop_merge_def dict_update_ok)

lemma pass_cache_ok:
  "dict_ok (wifi_data (fst st)) \<Longrightarrow> dict_ok (wifi_data (fst (scan_loop_pass lim clock run st)))"
proof -
  assume ok: "dict_ok (wifi_data (fst st))"
  obtain self rt where st: "st = (self, rt)" by (cases st)
  show ?thesis
  proof (cases "scan_wifi_sync lim clock run (interface self)")
    case (Inl e)
    then show ?thesis using ok by (simp add: st scan_loop_pass_def)
  next
    case (Inr x)
    obtain res lg where x: "x = (res, lg)" by (cases x)
    have "dict_ok (wifi_data (fst (self, rt\<lparr>logged := logged rt @ lg\<rparr>)))"
      using ok by (simp add: st)
    then have "dict_ok (wifi_data (fst (scan_loop_merge res (self, rt\<lparr>logged := logged rt @ lg\<rparr>))))"
      by (rule merge_cache_ok)
    then show ?thesis using Inr x by (simp add: st scan_loop_pass_def)
  qed
qed

lemma reachable_cache_ok: "reachable st \<Longrightarrow> dict_ok (wifi_data (fst st))"
proof (induction rule: reachable.induct)
  case (init iface)
  show ?case by (simp add: initial_def new_scanner_def dict_ok_def)
next
  case (start st)
  then show ?case by (simp add: start_cache)
next
  case (stop st)
  then show ?case by (simp add: stop_cache)
next
  case (merge st res)
  then show ?case by (simp add: merge_cache_ok)
next
  case (pass st lim clock run)
  then show ?case by (simp add: pass_cache_ok)
qed

lemma inv_active: "lifecycle_inv st \<Longrightarrow> active_loops (snd st) = (if running (fst st) then 1 else 0)"
  by (cases st) (auto simp: lifecycle_inv_def)

lemma start_running: "running (fst (start_continuous_scan st))"
  by (cases st) (simp add: start_continuous_scan_def)

lemma stop_idle: "lifecycle_inv st \<Longrightarrow> \<not> running (fst (stop_continuous_scan st))"
  by (cases st) (auto simp: stop_continuous_scan_def lifecycle_inv_def split: option.splits)

lemma start_noop:
  "running (fst st) \<Longrightarrow>
   start_continuous_scan st = (fst st, (snd st)\<lparr>logged := logged (snd st) @ [(WARNING, AlreadyRunning)]\<rparr>)"
  by (cases st) (simp add: start_continuous_scan_def)

lemma stop_noop: "\<not> running (fst st) \<Longrightarrow> stop_continuous_scan st = st"
  by (cases st) (simp add: stop_continuous_scan_def split: option.splits)

lemma scan_wifi_sync_returns: "\<exists>res. scan_wifi_sync lim clock run iface = Inr res"
  by (auto simp: scan_wifi_sync_def split: sum.splits py_error.splits)

lemma re_search_Some_suffix: "re_search m s = Some r \<Longrightarrow> \<exists>t. suffix t s \<and> m t = Some r"
proof (induction s)
  case Nil
  then show ?case by auto
next
  case (Cons c cs)
  show ?case
  proof (cases "m (c # cs)")
    case None
    with Cons.prems have "re_search m cs = Some r" by simp
    from Cons.IH[OF this] obtain t where "suffix t cs" "m t = Some r" by blast
    then have "suffix t (c # cs) \<and> m t = Some r" by (simp add: suffix_Cons)
    then show ?thesis by blast
  next
    case (Some a)
    with Cons.prems have "m (c # cs) = Some r" by simp
    then have "suffix (c # cs) (c # cs) \<and> m (c # cs) = Some r" by simp
    then show ?thesis by blast
  qed
qed

lemma match_bssid_length: "match_bssid t = Some b \<Longrightarrow> length b = 17"
  by (auto simp: match_bssid_def split: option.splits if_splits)

lemma cell_id_length: "cell_id c = Some b \<Longrightarrow> length b = 17"
proof -
  assume "cell_id c = Some b"
  then have "re_search match_bssid c = Some b" by (simp add: cell_id_def)
  from re_search_Some_suffix[OF this] obtain t where "match_bssid t = Some b" by blast
  then show ?thesis by (rule match_bssid_length)
qed

lemma match_bssid_not_None:
  "match_bssid s \<noteq> None \<longleftrightarrow>
     (\<exists>a post. s = ''Address: '' @ a @ post \<and> length a = 17 \<and> list_all is_hex_colon a)"
proof
  assume "match_bssid s \<noteq> None"
  then obtain r where r: "s = ''Address: '' @ r" "17 \<le> length r" "list_all is_hex_colon (take 17 r)"
    by (auto simp: match_bssid_def strip_prefix_Some split: option.splits if_splits)
  then have "s = ''Address: '' @ take 17 r @ drop 17 r \<and> length (take 17 r) = 17 \<and>
      list_all is_hex_colon (take 17 r)" by simp
  then show "\<exists>a post. s = ''Address: '' @ a @ post \<and> length a = 17 \<and> list_all is_hex_colon a"
    by blast
next
  assume "\<exists>a post. s = ''Address: '' @ a @ post \<and> length a = 17 \<and> list_all is_hex_colon a"
  then obtain a post where "s = ''Address: '' @ (a @ post)" "length a = 17" "list_all is_hex_colon a"
    by auto
  then show "match_bssid s \<noteq> None"
    by (simp add: match_bssid_def strip_prefix_append del: append.simps)
qed

lemma has_identifier_iff:
  "has_identifier c \<longleftrightarrow>
     (\<exists>pre a post. c = pre @ ''Address: '' @ a @ post \<and> length a = 17 \<and> list_all is_hex_colon a)"
proof -
  have "has_identifier c \<longleftrightarrow> (\<exists>pre s. c = pre @ s \<and> match_bssid s \<noteq> None)"
    unfolding has_identifier_def cell_id_def by (rule re_search_not_None)
  also have "\<dots> \<longleftrightarrow> (\<exists>pre a post. c = pre @ ''Address: '' @ a @ post \<and> length a = 17 \<and>
      list_all is_hex_colon a)"
    unfolding match_bssid_not_None by blast
  finally show ?thesis .
qed

lemma parse_cell_isl: "isl (parse_cell lim now c) = cell_raises lim c"
  by (simp add: parse_cell_def cell_raises_def split: option.splits sum.splits)

lemma parse_cell_Inl: "parse_cell lim now c = Inl e \<Longrightarrow> cell_raises lim c"
proof -
  assume "parse_cell lim now c = Inl e"
  then have "isl (parse_cell lim now c)" by simp
  then show ?thesis by (simp only: parse_cell_isl)
qed

lemma parse_cell_Inr_None: "parse_cell lim now c = Inr None \<longleftrightarrow> cell_id c = None"
  by (simp add: parse_cell_def cell_id_def split: option.splits sum.splits)

lemma parse_cell_Inr_Some:
  "parse_cell lim now c = Inr (Some r) \<Longrightarrow> cell_id c = Some (bssid r) \<and> cell_parses lim c"
proof -
  assume a: "parse_cell lim now c = Inr (Some r)"
  then have "cell_id c = Some (bssid r)"
    by (auto simp: parse_cell_def cell_id_def split: option.splits sum.splits)
  moreover have "\<not> cell_raises lim c" using parse_cell_isl[of lim now c] a by simp
  ultimately show ?thesis by (simp add: cell_parses_def)
qed

lemma cell_parses_record:
  assumes "cell_parses lim c"
  shows "\<exists>r. parse_cell lim now c = Inr (Some r) \<and> cell_id c = Some (bssid r)"
proof (cases "parse_cell lim now c")
  case (Inl e)
  then show ?thesis using assms parse_cell_Inl by (auto simp: cell_parses_def)
next
  case (Inr x)
  show ?thesis
  proof (cases x)
    case None
    with Inr have "cell_id c = None" by (simp add: parse_cell_Inr_None)
    with assms show ?thesis by (simp add: cell_parses_def)
  next
    case (Some r)
    with Inr have "parse_cell lim now c = Inr (Some r)" by simp
    then show ?thesis using parse_cell_Inr_Some by blast
  qed
qed

lemma malformed_never_raises: "cell_id c = None \<Longrightarrow> \<not> cell_raises lim c"
  by (simp add: cell_raises_def parse_cell_def cell_id_def)

lemma cell_record_step:
  "(case parse_cell lim now c of
      Inr (Some r) \<Rightarrow> if bssid r \<noteq> [] then [(bssid r, r)] else []
    | _ \<Rightarrow> []) =
   (if cell_parses lim c then [(the (cell_id c), the (projr (parse_cell lim now c)))] else [])"
proof (cases "cell_parses lim c")
  case True
  from cell_parses_record[OF this, of now] obtain r where
    r: "parse_cell lim now c = Inr (Some r)" "cell_id c = Some (bssid r)" by blast
  then have "bssid r \<noteq> []" using cell_id_length[of c "bssid r"] by auto
  with r True show ?thesis by simp
next
  case False
  then have "\<forall>r. parse_cell lim now c \<noteq> Inr (Some r)" using parse_cell_Inr_Some by blast
  with False show ?thesis by (auto split: sum.splits option.splits)
qed

lemma cell_records_keys:
  "map fst (cell_records lim clock i cs) = map (\<lambda>c. the (cell_id c)) (filter (cell_parses lim) cs)"
  by (induction cs arbitrary: i) (simp_all add: cell_record_step)

lemma parse_cells_eq:
  "parse_cells lim clock i cs (nw, lg) =
     (dict_update nw (cell_records lim clock i cs),
      lg @ replicate (length (filter (cell_raises lim) cs)) (WARNING, CellParseFailed))"
proof (induction cs arbitrary: i nw lg)
  case Nil
  then show ?case by (simp add: dict_update_Nil)
next
  case (Cons c cs)
  show ?case
  proof (cases "parse_cell lim (clock i) c")
    case (Inl e)
    then have "cell_raises lim c" by (rule parse_cell_Inl)
    then show ?thesis using Inl Cons.IH
      by (simp add: replicate_append_same)
  next
    case (Inr x)
    then have nr: "\<not> cell_raises lim c" using parse_cell_isl[of lim "clock i" c] by simp
    show ?thesis
    proof (cases x)
      case None
      then show ?thesis using Inr nr Cons.IH by simp
    next
      case (Some r)
      then show ?thesis using Inr nr Cons.IH by (simp add: dict_update_Cons)
    qed
  qed
qed

lemma parse_scan_results_eq:
  "parse_scan_results lim clock text =
     (dict_update [] (cell_records lim clock 0 (cells_of text)),
      replicate (length (filter (cell_raises lim) (cells_of text))) (WARNING, CellParseFailed))"
  by (simp add: parse_scan_results_def parse_cells_eq)

lemma cell_records_key_set:
  "fst ` set (cell_records lim clock i cs) = {b. \<exists>c\<in>set cs. cell_parses lim c \<and> cell_id c = Some b}"
proof -
  have "fst ` set (cell_records lim clock i cs) = set (map fst (cell_records lim clock i cs))"
    by simp
  also have "\<dots> = (\<lambda>c. the (cell_id c)) ` {c \<in> set cs. cell_parses lim c}"
    by (simp only: cell_records_keys set_map set_filter)
  also have "\<dots> = {b. \<exists>c\<in>set cs. cell_parses lim c \<and> cell_id c = Some b}"
  proof (intro set_eqI iffI)
    fix b assume "b \<in> (\<lambda>c. the (cell_id c)) ` {c \<in> set cs. cell_parses lim c}"
    then obtain c where c: "c \<in> set cs" "cell_parses lim c" "b = the (cell_id c)" by auto
    then have "cell_id c = Some b" by (auto simp: cell_parses_def)
    with c show "b \<in> {b. \<exists>c\<in>set cs. cell_parses lim c \<and> cell_id c = Some b}" by auto
  next
    fix b assume "b \<in> {b. \<exists>c\<in>set cs. cell_parses lim c \<and> cell_id c = Some b}"
    then obtain c where c: "c \<in> set cs" "cell_parses lim c" "cell_id c = Some b" by auto
    then have "b = the (cell_id c)" by simp
    with c show "b \<in> (\<lambda>c. the (cell_id c)) ` {c \<in> set cs. cell_parses lim c}" by auto
  qed
  finally show ?thesis .
qed

lemma cell_records_distinct:
  assumes "distinct (map cell_id (filter (cell_parses lim) cs))"
  shows "distinct (map fst (cell_records lim clock i cs))"
proof -
  have inj: "inj_on the (set (map cell_id (filter (cell_parses lim) cs)))"
    by (rule inj_onI) (auto simp: cell_parses_def)
  have "map (\<lambda>c. the (cell_id c)) (filter (cell_parses lim) cs) =
        map the (map cell_id (filter (cell_parses lim) cs))" by simp
  moreover have "distinct (map the (map cell_id (filter (cell_parses lim) cs)))"
    using assms inj by (simp only: distinct_map)
  ultimately show ?thesis by (simp only: cell_records_keys)
qed

lemma cell_records_length:
  "length (cell_records lim clock i cs) = length (filter (cell_parses lim) cs)"
  using arg_cong[OF cell_records_keys[of lim clock i cs], of length] by simp

lemma map_of_unique_count:
  "distinct (map fst d) \<Longrightarrow> map_of d k = Some v \<Longrightarrow> length (filter (\<lambda>(b, x). b = k) d) = 1"
proof (induction d)
  case Nil
  then show ?case by simp
next
  case (Cons p d)
  obtain a b where p: "p = (a, b)" by (cases p)
  show ?case
  proof (cases "a = k")
    case True
    then have "k \<notin> fst ` set d" using Cons.prems(1) p by auto
    then have "filter (\<lambda>(b, x). b = k) d = []" by (auto simp: filter_empty_conv image_iff)
    then show ?thesis using True p by simp
  next
    case False
    then have "map_of d k = Some v" using Cons.prems(2) p by simp
    then show ?thesis using Cons.IH Cons.prems(1) False p by simp
  qed
qed

lemma last_record:
  assumes "j < length cs"
      and "parse_cell lim (clock (i + j)) (cs ! j) = Inr (Some r)"
      and "\<forall>j'. j < j' \<and> j' < length cs \<longrightarrow>
             \<not> (cell_parses lim (cs ! j') \<and> cell_id (cs ! j') = Some (bssid r))"
  shows "map_of (rev (cell_records lim clock i cs)) (bssid r) = Some r"
  using assms
proof (induction cs arbitrary: i j)
  case Nil
  then show ?case by simp
next
  case (Cons c cs)
  let ?first = "(case parse_cell lim (clock i) c of
        Inr (Some r) \<Rightarrow> if bssid r \<noteq> [] then [(bssid r, r)] else []
      | _ \<Rightarrow> [])"
  have recs: "rev (cell_records lim clock i (c # cs)) =
              rev (cell_records lim clock (Suc i) cs) @ rev ?first" by simp
  show ?case
  proof (cases j)
    case 0
    with Cons.prems(2) have pr: "parse_cell lim (clock i) c = Inr (Some r)" by simp
    then have "bssid r \<noteq> []"
      using parse_cell_Inr_Some[OF pr] cell_id_length[of c "bssid r"] by auto
    with pr have first: "?first = [(bssid r, r)]" by simp
    have "\<forall>c'\<in>set cs. \<not> (cell_parses lim c' \<and> cell_id c' = Some (bssid r))"
    proof
      fix c' assume "c' \<in> set cs"
      then obtain n where n: "n < length cs" "cs ! n = c'" by (auto simp: in_set_conv_nth)
      then have "j < Suc n \<and> Suc n < length (c # cs)" using 0 by simp
      with Cons.prems(3) have "\<not> (cell_parses lim ((c # cs) ! Suc n) \<and>
          cell_id ((c # cs) ! Suc n) = Some (bssid r))" by blast
      with n show "\<not> (cell_parses lim c' \<and> cell_id c' = Some (bssid r))" by simp
    qed
    then have "bssid r \<notin> fst ` set (cell_records lim clock (Suc i) cs)"
      by (simp add: cell_records_key_set)
    then have "map_of (rev (cell_records lim clock (Suc i) cs)) (bssid r) = None"
      by (simp add: map_of_eq_None_iff)
    then show ?thesis unfolding recs first by (simp add: map_add_def)
  next
    case (Suc n)
    have 1: "n < length cs" using Cons.prems(1) Suc by simp
    have 2: "parse_cell lim (clock (Suc i + n)) (cs ! n) = Inr (Some r)"
      using Cons.prems(2) Suc by simp
    have 3: "\<forall>j'. n < j' \<and> j' < length cs \<longrightarrow>
             \<not> (cell_parses lim (cs ! j') \<and> cell_id (cs ! j') = Some (bssid r))"
    proof (intro allI impI)
      fix j' assume "n < j' \<and> j' < length cs"
      then have "j < Suc j' \<and> Suc j' < length (c # cs)" using Suc by simp
      with Cons.prems(3) have "\<not> (cell_parses lim ((c # cs) ! Suc j') \<and>
          cell_id ((c # cs) ! Suc j') = Some (bssid r))" by blast
      then show "\<not> (cell_parses lim (cs ! j') \<and> cell_id (cs ! j') = Some (bssid r))" by simp
    qed
    have "map_of (rev (cell_records lim clock (Suc i) cs)) (bssid r) = Some r"
      by (rule Cons.IH[OF 1 2 3])
    then show ?thesis unfolding recs by (simp add: map_add_def)
  qed
qed

section \<open>When parsing a chunk raises\<close>

lemma signed_digits_Some:
  assumes "signed_digits r = Some g"
  shows "\<exists>ds. ds \<noteq> [] \<and> list_all is_digit ds \<and> (g = ds \<or> g = CHR ''-'' # ds)"
proof -
  define sgn where "sgn = (if take 1 r = ''-'' then ''-'' else '''')"
  define ds where "ds = takeWhile is_digit (drop (length sgn) r)"
  from assms have nz: "ds \<noteq> []" and g: "g = sgn @ ds"
    by (auto simp: signed_digits_def Let_def sgn_def ds_def split: if_splits)
  have d: "list_all is_digit ds"
    unfolding ds_def list_all_iff using set_takeWhileD by fastforce
  have "sgn = [] \<or> sgn = ''-''" by (simp add: sgn_def)
  with g have "g = ds \<or> g = CHR ''-'' # ds" by auto
  with nz d show ?thesis by blast
qed

lemma py_int_digits:
  assumes "ds \<noteq> []" and "list_all is_digit ds"
  shows "isl (py_int lim ds) \<longleftrightarrow> 0 < lim \<and> lim < length ds"
    and "isl (py_int lim (CHR ''-'' # ds)) \<longleftrightarrow> 0 < lim \<and> lim < length ds"
proof -
  from assms obtain x xs where ds: "ds = x # xs" by (cases ds) auto
  with assms(2) have "is_digit x" by simp
  then have x: "x \<noteq> CHR ''-''" by (auto simp: is_digit_def)
  show "isl (py_int lim ds) \<longleftrightarrow> 0 < lim \<and> lim < length ds"
    using assms x ds by (simp add: py_int_def Let_def)
  show "isl (py_int lim (CHR ''-'' # ds)) \<longleftrightarrow> 0 < lim \<and> lim < length ds"
    using assms by (simp add: py_int_def Let_def)
qed

lemma not_digit_minus: "\<not> is_digit CHR ''-''"
  by (simp add: is_digit_def)

lemma filter_digits: "list_all is_digit ds \<Longrightarrow> filter is_digit ds = ds"
  by (simp add: list_all_iff)

lemma py_int_group:
  assumes "signed_digits r = Some g"
  shows "isl (py_int lim g) \<longleftrightarrow> 0 < lim \<and> lim < length (filter is_digit g)"
proof -
  from signed_digits_Some[OF assms] obtain ds where
    ds: "ds \<noteq> []" "list_all is_digit ds" and g: "g = ds \<or> g = CHR ''-'' # ds" by blast
  from g show ?thesis
  proof
    assume "g = ds"
    then show ?thesis using py_int_digits(1)[OF ds] filter_digits[OF ds(2)] by simp
  next
    assume "g = CHR ''-'' # ds"
    then show ?thesis
      using py_int_digits(2)[OF ds] filter_digits[OF ds(2)] not_digit_minus by simp
  qed
qed

lemma match_signal_group:
  assumes "re_search match_signal c = Some g"
  shows "isl (py_int lim g) \<longleftrightarrow> 0 < lim \<and> lim < length (filter is_digit g)"
proof -
  from re_search_Some_suffix[OF assms] obtain t where "match_signal t = Some g" by blast
  then obtain r where "signed_digits r = Some g"
    by (auto simp: match_signal_def split: option.splits)
  then show ?thesis by (rule py_int_group)
qed

lemma cell_raises_iff:
  "cell_raises lim c \<longleftrightarrow>
     cell_id c \<noteq> None \<and>
     (\<exists>g. re_search match_signal c = Some g \<and> 0 < lim \<and> lim < length (filter is_digit g))"
proof (cases "re_search match_bssid c")
  case None
  then show ?thesis by (simp add: cell_raises_def parse_cell_def cell_id_def)
next
  case (Some b)
  show ?thesis
  proof (cases "re_search match_signal c")
    case None
    with Some show ?thesis by (simp add: cell_raises_def parse_cell_def cell_id_def)
  next
    case g: (Some g)
    have "cell_raises lim c \<longleftrightarrow> isl (py_int lim g)"
      using Some g by (simp add: cell_raises_def parse_cell_def split: sum.splits)
    also have "\<dots> \<longleftrightarrow> 0 < lim \<and> lim < length (filter is_digit g)"
      by (rule match_signal_group[OF g])
    finally show ?thesis using Some g by (simp add: cell_id_def)
  qed
qed

lemma no_limit_never_raises: "\<not> cell_raises 0 c"
  by (simp add: cell_raises_iff)

section \<open>The nmcli script and execution failures\<close>

text \<open>
  \<^verbatim>\<open>scan_wifi\<close> of \<^verbatim>\<open>wifi.py\<close> answers a nonzero exit status and a missing binary with
  the empty mapping and a printed message; any other exception leaves it.
\<close>

lemma scan_wifi_recovers:
  "run nmcli_command = Inl CalledProcessError \<Longrightarrow>
     scan_wifi run to_int = Inr ([], [Scanning, NmcliFailed])"
  "run nmcli_command = Inl FileNotFoundError \<Longrightarrow>
     scan_wifi run to_int = Inr ([], [Scanning, NmcliNotFound])"
  by (simp_all add: scan_wifi_def)

lemma scan_wifi_propagates:
  "run nmcli_command = Inl e \<Longrightarrow> e \<noteq> CalledProcessError \<Longrightarrow> e \<noteq> FileNotFoundError \<Longrightarrow>
     scan_wifi run to_int = Inl e"
  by (cases e) (simp_all add: scan_wifi_def)

section \<open>Example inputs\<close>

text \<open>The clock of the examples: chunk number \<open>i\<close> is parsed at time \<open>i\<close>.\<close>

definition tick :: "nat \<Rightarrow> nat" where
  "tick i = i"

definition cell_open :: string where
  "cell_open = ''Address: AA:BB:CC:DD:EE:01
  Signal level=-40 dBm
  IE: IEEE 802.11i/WPA2 Version 1''"

definition cell_wpa2 :: string where
  "cell_wpa2 = ''Address: AA:BB:CC:DD:EE:02
  Quality=1/2 Signal level=-70 dBm
  Encryption key:on
  IE: WPA Version 1
  IE: IEEE 802.11i/WPA2 Version 1''"

definition cell_wpa :: string where
  "cell_wpa = ''Address: AA:BB:CC:DD:EE:03
  Signal level=good
  Encryption key:on
  IE: WPA Version 1''"

definition cell_wep :: string where
  "cell_wep = ''Address: AA:BB:CC:DD:EE:04
  Encryption key:on
  IE: Unknown
  WPA2''"

definition example_info :: "string \<Rightarrow> int \<Rightarrow> string \<Rightarrow> nat \<Rightarrow> NetworkInfo" where
  "example_info b sig enc t =
     \<lparr>bssid = b, signal_strength = sig, essid = None, encryption = Some enc,
      frequency = None, last_seen = t\<rparr>"

definition scan_text :: string where
  "scan_text = ''wlan0     Scan completed :
Cell 01 - Address: AA:BB:CC:DD:EE:01 Signal level=-40 dBm
Cell 02 - no address in this block
Cell 03 - Address: AA:BB:CC:DD:EE:01 Signal level=-60 dBm
Cell 04 - Address: AA:BB:CC:DD:EE:02 Signal level=-70 dBm
Cell 05 - Address: AA:BB:CC:DD:EE:03 Signal level=-50 dBm''"

definition text_weak :: string where
  "text_weak = ''Cell 01 - Address: AA:BB:CC:DD:EE:05 Signal level=-101 dBm''"

definition scan_cache :: "(string, NetworkInfo) dict" where
  "scan_cache =
     [(''AA:BB:CC:DD:EE:01'', example_info ''AA:BB:CC:DD:EE:01'' (- 60) ''Open'' 2),
      (''AA:BB:CC:DD:EE:02'', example_info ''AA:BB:CC:DD:EE:02'' (- 70) ''Open'' 3),
      (''AA:BB:CC:DD:EE:03'', example_info ''AA:BB:CC:DD:EE:03'' (- 50) ''Open'' 4)]"

definition scanned :: "string \<Rightarrow> WiFiScanner" where
  "scanned text = fst (scan_loop_merge (fst (parse_scan_results 0 tick text)) (initial None))"

definition cell_limit :: string where
  "cell_limit = ''Address: AA:BB:CC:DD:EE:06 Signal level=-'' @ replicate 641 CHR ''1'' @ ''
''"

definition cell_after :: string where
  "cell_after = ''Address: AA:BB:CC:DD:EE:07 Signal level=-45''"

definition text_limit :: string where
  "text_limit = ''Cell 01 - '' @ cell_limit @ ''Cell 02 - '' @ cell_after"

text \<open>Two blocks with one identifier; the signal value of the later one has 641 digits.\<close>

definition cell_first :: string where
  "cell_first = ''Address: AA:BB:CC:DD:EE:09 Signal level=-40 dBm
''"

definition cell_second :: string where
  "cell_second = ''Address: AA:BB:CC:DD:EE:09 Signal level=-'' @ replicate 641 CHR ''1''"

definition text_same_id :: string where
  "text_same_id = ''Cell 01 - '' @ cell_first @ ''Cell 02 - '' @ cell_second"

text \<open>
  A chunk with two \<^verbatim>\<open>Signal level\<close> labels: the value of the first cannot be read, the
  value of the second can.
\<close>

definition two_labels_head :: string where
  "two_labels_head = ''Address: AA:BB:CC:DD:EE:08
  ''"

definition two_labels_value :: string where
  "two_labels_value = ''=good
  Signal level=-55 dBm''"

definition cell_two_labels :: string where
  "cell_two_labels = two_labels_head @ ''Signal level'' @ two_labels_value"

lemma cells_same_id: "cells_of text_same_id = [cell_first, cell_second]"
  by code_simp

lemma parse_cell_first:
  "parse_cell 640 0 cell_first =
     Inr (Some (example_info ''AA:BB:CC:DD:EE:09'' (- 40) ''Open'' 0))"
  by code_simp

lemma parse_cell_second: "parse_cell 640 (Suc 0) cell_second = Inl ValueError"
  by code_simp

section \<open>The claims\<close>

text \<open>
  C1. For every chunk that parses to a record, the security mode of the record follows
  the classification table: without the marker \<^verbatim>\<open>Encryption key:on\<close> it is Open; with
  it and a WPA2 information-element marker it is WPA2, whether or not there is a WPA
  marker; with it, without the WPA2 marker and with a WPA marker it is WPA; with it and
  neither marker it is WEP.
\<close>

theorem security_mode_table:
  assumes "parse_cell lim now cell = Inr (Some r)"
  shows "encryption r = Some
     (if \<not> sublist ''Encryption key:on'' cell then ''Open''
      else if ie_marker ''WPA2'' cell then ''WPA2''
      else if ie_marker ''WPA'' cell then ''WPA''
      else ''WEP'')"
proof -
  have "cell_encryption cell =
     (if \<not> sublist ''Encryption key:on'' cell then ''Open''
      else if ie_marker ''WPA2'' cell then ''WPA2''
      else if ie_marker ''WPA'' cell then ''WPA''
      else ''WEP'')"
    unfolding cell_encryption_def re_search_lit_iff re_search_ie_iff by simp
  with parse_cell_Some(2)[OF assms] show ?thesis by simp
qed

theorem security_mode_table_witness:
  "parse_cell 0 7 cell_open = Inr (Some (example_info ''AA:BB:CC:DD:EE:01'' (- 40) ''Open'' 7)) \<and>
   parse_cell 0 7 cell_wpa2 = Inr (Some (example_info ''AA:BB:CC:DD:EE:02'' (- 70) ''WPA2'' 7)) \<and>
   parse_cell 0 7 cell_wpa = Inr (Some (example_info ''AA:BB:CC:DD:EE:03'' (- 100) ''WPA'' 7)) \<and>
   parse_cell 0 7 cell_wep = Inr (Some (example_info ''AA:BB:CC:DD:EE:04'' (- 100) ''WEP'' 7)) \<and>
   encryption (example_info ''AA:BB:CC:DD:EE:01'' (- 40) ''Open'' 7) = Some ''Open'' \<and>
   encryption (example_info ''AA:BB:CC:DD:EE:02'' (- 70) ''WPA2'' 7) = Some ''WPA2'' \<and>
   encryption (example_info ''AA:BB:CC:DD:EE:03'' (- 100) ''WPA'' 7) = Some ''WPA'' \<and>
   encryption (example_info ''AA:BB:CC:DD:EE:04'' (- 100) ''WEP'' 7) = Some ''WEP''"
proof -
  have p1: "parse_cell 0 7 cell_open = Inr (Some (example_info ''AA:BB:CC:DD:EE:01'' (- 40) ''Open'' 7))"
    by code_simp
  have p2: "parse_cell 0 7 cell_wpa2 = Inr (Some (example_info ''AA:BB:CC:DD:EE:02'' (- 70) ''WPA2'' 7))"
    by code_simp
  have p3: "parse_cell 0 7 cell_wpa = Inr (Some (example_info ''AA:BB:CC:DD:EE:03'' (- 100) ''WPA'' 7))"
    by code_simp
  have p4: "parse_cell 0 7 cell_wep = Inr (Some (example_info ''AA:BB:CC:DD:EE:04'' (- 100) ''WEP'' 7))"
    by code_simp
  have m1: "\<not> sublist ''Encryption key:on'' cell_open"
    by code_simp
  have m2: "sublist ''Encryption key:on'' cell_wpa2" "ie_marker ''WPA2'' cell_wpa2"
    unfolding re_search_ie_iff[symmetric] by code_simp+
  have m3: "sublist ''Encryption key:on'' cell_wpa" "\<not> ie_marker ''WPA2'' cell_wpa"
    "ie_marker ''WPA'' cell_wpa"
    unfolding re_search_ie_iff[symmetric] by code_simp+
  have m4: "sublist ''Encryption key:on'' cell_wep" "\<not> ie_marker ''WPA2'' cell_wep"
    "\<not> ie_marker ''WPA'' cell_wep"
    unfolding re_search_ie_iff[symmetric] by code_simp+
  have e1: "encryption (example_info ''AA:BB:CC:DD:EE:01'' (- 40) ''Open'' 7) = Some ''Open''"
    using security_mode_table[OF p1] m1 by simp
  have e2: "encryption (example_info ''AA:BB:CC:DD:EE:02'' (- 70) ''WPA2'' 7) = Some ''WPA2''"
    using security_mode_table[OF p2] m2 by simp
  have e3: "encryption (example_info ''AA:BB:CC:DD:EE:03'' (- 100) ''WPA'' 7) = Some ''WPA''"
    using security_mode_table[OF p3] m3 by simp
  have e4: "encryption (example_info ''AA:BB:CC:DD:EE:04'' (- 100) ''WEP'' 7) = Some ''WEP''"
    using security_mode_table[OF p4] m4 by simp
  from p1 p2 p3 p4 e1 e2 e3 e4 show ?thesis by blast
qed

text \<open>
  C2 (amended). The parser returns for every text and never raises. A chunk without a
  parsable identifier is skipped silently: no warning is logged for it. A warning is
  logged exactly for each chunk whose parsing raises, and such a chunk has an identifier.
  The keys of the result are the identifiers of the chunks that parse to a record, each
  once; when those identifiers are pairwise distinct the result has as many records as
  there are such chunks. No chunk keeps the chunks behind it from being parsed.
\<close>

theorem parse_scan_results_skips:
  "snd (parse_scan_results lim clock text) =
      replicate (length (filter (cell_raises lim) (cells_of text))) (WARNING, CellParseFailed) \<and>
   (\<forall>c \<in> set (cells_of text). cell_id c = None \<longrightarrow> \<not> cell_raises lim c) \<and>
   dict_ok (fst (parse_scan_results lim clock text)) \<and>
   fst ` set (fst (parse_scan_results lim clock text)) =
      {b. \<exists>c\<in>set (cells_of text). cell_parses lim c \<and> cell_id c = Some b} \<and>
   (distinct (map cell_id (filter (cell_parses lim) (cells_of text))) \<longrightarrow>
      length (fst (parse_scan_results lim clock text)) =
      length (filter (cell_parses lim) (cells_of text)))"
proof -
  let ?cs = "cells_of text"
  let ?recs = "cell_records lim clock 0 ?cs"
  have a: "snd (parse_scan_results lim clock text) =
      replicate (length (filter (cell_raises lim) ?cs)) (WARNING, CellParseFailed)"
    by (simp add: parse_scan_results_eq)
  have b: "\<forall>c \<in> set ?cs. cell_id c = None \<longrightarrow> \<not> cell_raises lim c"
    by (simp add: malformed_never_raises)
  have f: "fst (parse_scan_results lim clock text) = dict_update [] ?recs"
    by (simp add: parse_scan_results_eq)
  have c: "dict_ok (dict_update [] ?recs)"
    by (rule dict_update_ok) (simp add: dict_ok_def)
  have d: "fst ` set (dict_update [] ?recs) =
      {b. \<exists>c\<in>set ?cs. cell_parses lim c \<and> cell_id c = Some b}"
    by (simp add: dict_update_keys cell_records_key_set)
  have e: "length (dict_update [] ?recs) = length (filter (cell_parses lim) ?cs)"
    if "distinct (map cell_id (filter (cell_parses lim) ?cs))"
  proof -
    have "distinct (map fst ?recs)" by (rule cell_records_distinct[OF that])
    then have "dict_update [] ?recs = [] @ ?recs" by (intro dict_update_fresh) simp_all
    then show ?thesis by (simp add: cell_records_length)
  qed
  from a b c d e show ?thesis unfolding f by blast
qed

theorem parse_scan_results_skips_witness:
  "length (filter (cell_parses 0) (cells_of text_weak)) = 1 \<and>
   length (fst (parse_scan_results 0 tick text_weak)) = 1 \<and>
   snd (parse_scan_results 0 tick text_weak) = [] \<and>
   length (filter (cell_parses 640) (cells_of text_limit)) = 1 \<and>
   length (fst (parse_scan_results 640 tick text_limit)) = 1 \<and>
   snd (parse_scan_results 640 tick text_limit) = [(WARNING, CellParseFailed)]"
proof -
  have d: "distinct (map cell_id (filter (cell_parses 0) (cells_of text_weak)))" by code_simp
  have n: "length (filter (cell_parses 0) (cells_of text_weak)) = 1" by code_simp
  have r: "length (filter (cell_raises 0) (cells_of text_weak)) = 0" by code_simp
  have cs: "cells_of text_limit = [cell_limit, cell_after]" by code_simp
  have a: "cell_raises 640 cell_limit" by code_simp
  have b: "\<not> cell_raises 640 cell_after" by code_simp
  have i: "cell_id cell_after \<noteq> None" by code_simp
  have d': "distinct (map cell_id (filter (cell_parses 640) (cells_of text_limit)))"
    by (simp add: cs cell_parses_def a b i)
  have n': "length (filter (cell_parses 640) (cells_of text_limit)) = 1"
    by (simp add: cs cell_parses_def a b i)
  have r': "length (filter (cell_raises 640) (cells_of text_limit)) = 1"
    by (simp add: cs a b)
  from parse_scan_results_skips[of 0 tick text_weak] d n r
  have 1: "length (fst (parse_scan_results 0 tick text_weak)) = 1 \<and>
           snd (parse_scan_results 0 tick text_weak) = []" by simp
  from parse_scan_results_skips[of 640 tick text_limit] d' n' r'
  have 2: "length (fst (parse_scan_results 640 tick text_limit)) = 1 \<and>
           snd (parse_scan_results 640 tick text_limit) = [(WARNING, CellParseFailed)]" by simp
  from n n' 1 2 show ?thesis by blast
qed

text \<open>
  The claim as it stands fails on \<open>scan_text\<close>: of its five chunks four have an
  identifier and one has none, yet the result has three records (two chunks share an
  identifier) and no warning is logged.
\<close>

theorem parse_scan_results_counterexample:
  "length (filter has_identifier (cells_of scan_text)) = 4 \<and>
   length (filter (Not \<circ> has_identifier) (cells_of scan_text)) = 1 \<and>
   length (fst (parse_scan_results 0 tick scan_text)) = 3 \<and>
   length (snd (parse_scan_results 0 tick scan_text)) = 0"
  by code_simp

text \<open>
  C3 (amended). When a chunk parses to a record and no later chunk parses to a record with
  the same identifier, the result maps the identifier to that record, and to nothing
  else: of several blocks with one identifier the last one that parses to a record wins.
  A later block with the identifier whose parsing raises is skipped and leaves the
  earlier record in place.
\<close>

theorem later_block_wins:
  assumes "j < length (cells_of text)"
      and "parse_cell lim (clock j) (cells_of text ! j) = Inr (Some r)"
      and "\<forall>j'. j < j' \<and> j' < length (cells_of text) \<longrightarrow>
             \<not> (cell_parses lim (cells_of text ! j') \<and>
                cell_id (cells_of text ! j') = Some (bssid r))"
  shows "dict_get (fst (parse_scan_results lim clock text)) (bssid r) = Some r \<and>
         length (filter (\<lambda>(b, x). b = bssid r) (fst (parse_scan_results lim clock text))) = 1"
proof -
  let ?recs = "cell_records lim clock 0 (cells_of text)"
  have f: "fst (parse_scan_results lim clock text) = dict_update [] ?recs"
    by (simp add: parse_scan_results_eq)
  have "map_of (rev ?recs) (bssid r) = Some r"
    using last_record[of j "cells_of text" lim clock 0 r] assms by simp
  then have g: "map_of (dict_update [] ?recs) (bssid r) = Some r"
    by (simp add: map_of_dict_update)
  have "dict_ok (dict_update [] ?recs)" by (rule dict_update_ok) (simp add: dict_ok_def)
  then have "distinct (map fst (dict_update [] ?recs))" by (simp add: dict_ok_def)
  from map_of_unique_count[OF this g] g show ?thesis unfolding f by (simp add: dict_get_def)
qed

theorem later_block_wins_witness:
  "dict_get (fst (parse_scan_results 0 tick scan_text)) ''AA:BB:CC:DD:EE:01'' =
     Some (example_info ''AA:BB:CC:DD:EE:01'' (- 60) ''Open'' 2) \<and>
   length (filter (\<lambda>(b, x). b = ''AA:BB:CC:DD:EE:01'')
     (fst (parse_scan_results 0 tick scan_text))) = 1 \<and>
   cell_raises 640 (cells_of text_same_id ! 1) \<and>
   dict_get (fst (parse_scan_results 640 tick text_same_id)) ''AA:BB:CC:DD:EE:09'' =
     Some (example_info ''AA:BB:CC:DD:EE:09'' (- 40) ''Open'' 0)"
proof -
  let ?r = "example_info ''AA:BB:CC:DD:EE:01'' (- 60) ''Open'' 2"
  have b: "bssid ?r = ''AA:BB:CC:DD:EE:01''" by (simp add: example_info_def)
  have l: "length (cells_of scan_text) = 5" by code_simp
  have 1: "2 < length (cells_of scan_text)" by (simp add: l)
  have 2: "parse_cell 0 (tick 2) (cells_of scan_text ! 2) = Inr (Some ?r)" by code_simp
  have c3: "cell_id (cells_of scan_text ! 3) \<noteq> Some ''AA:BB:CC:DD:EE:01''" by code_simp
  have c4: "cell_id (cells_of scan_text ! 4) \<noteq> Some ''AA:BB:CC:DD:EE:01''" by code_simp
  have 3: "\<forall>j'. 2 < j' \<and> j' < length (cells_of scan_text) \<longrightarrow>
             \<not> (cell_parses 0 (cells_of scan_text ! j') \<and>
                cell_id (cells_of scan_text ! j') = Some (bssid ?r))"
  proof (intro allI impI)
    fix j' assume "2 < j' \<and> j' < length (cells_of scan_text)"
    then have "j' = 3 \<or> j' = 4" using l by arith
    then show "\<not> (cell_parses 0 (cells_of scan_text ! j') \<and>
                cell_id (cells_of scan_text ! j') = Some (bssid ?r))"
      using c3 c4 b by auto
  qed
  from later_block_wins[of 2 scan_text 0 tick ?r] 1 2 3 b
  have A: "dict_get (fst (parse_scan_results 0 tick scan_text)) ''AA:BB:CC:DD:EE:01'' =
     Some (example_info ''AA:BB:CC:DD:EE:01'' (- 60) ''Open'' 2) \<and>
   length (filter (\<lambda>(b, x). b = ''AA:BB:CC:DD:EE:01'')
     (fst (parse_scan_results 0 tick scan_text))) = 1" by simp
  let ?q = "example_info ''AA:BB:CC:DD:EE:09'' (- 40) ''Open'' 0"
  have qb: "bssid ?q = ''AA:BB:CC:DD:EE:09''" by (simp add: example_info_def)
  have q1: "0 < length (cells_of text_same_id)" by (simp add: cells_same_id)
  have q2: "parse_cell 640 (tick 0) (cells_of text_same_id ! 0) = Inr (Some ?q)"
    using parse_cell_first by (simp add: cells_same_id tick_def)
  have ra: "cell_raises 640 cell_second"
    by (rule parse_cell_Inl[OF parse_cell_second])
  have q3: "\<forall>j'. 0 < j' \<and> j' < length (cells_of text_same_id) \<longrightarrow>
             \<not> (cell_parses 640 (cells_of text_same_id ! j') \<and>
                cell_id (cells_of text_same_id ! j') = Some (bssid ?q))"
  proof (intro allI impI)
    fix j' assume "0 < j' \<and> j' < length (cells_of text_same_id)"
    then have "j' = 1" by (simp add: cells_same_id)
    then show "\<not> (cell_parses 640 (cells_of text_same_id ! j') \<and>
                cell_id (cells_of text_same_id ! j') = Some (bssid ?q))"
      using ra by (simp add: cells_same_id cell_parses_def)
  qed
  from later_block_wins[of 0 text_same_id 640 tick ?q] q1 q2 q3 qb ra
  have B: "cell_raises 640 (cells_of text_same_id ! 1) \<and>
   dict_get (fst (parse_scan_results 640 tick text_same_id)) ''AA:BB:CC:DD:EE:09'' =
     Some (example_info ''AA:BB:CC:DD:EE:09'' (- 40) ''Open'' 0)"
    by (simp add: cells_same_id)
  from A B show ?thesis by blast
qed

text \<open>
  The claim as it stands fails on \<open>text_same_id\<close>, whose two blocks have the identifier
  \<^verbatim>\<open>AA:BB:CC:DD:EE:09\<close>: the integer conversion of the later block raises under a limit
  of 640 digits, the block is skipped, and the result holds the record of the earlier
  block.
\<close>

theorem later_block_wins_counterexample:
  "cells_of text_same_id = [cell_first, cell_second] \<and>
   cell_id cell_first = Some ''AA:BB:CC:DD:EE:09'' \<and>
   cell_id cell_second = Some ''AA:BB:CC:DD:EE:09'' \<and>
   parse_cell 640 (tick 1) cell_second = Inl ValueError \<and>
   fst (parse_scan_results 640 tick text_same_id) =
     [(''AA:BB:CC:DD:EE:09'', example_info ''AA:BB:CC:DD:EE:09'' (- 40) ''Open'' 0)]"
proof -
  have i0: "cell_id cell_first = Some ''AA:BB:CC:DD:EE:09''" by code_simp
  have i1: "cell_id cell_second = Some ''AA:BB:CC:DD:EE:09''" by code_simp
  have b: "bssid (example_info ''AA:BB:CC:DD:EE:09'' (- 40) ''Open'' 0) = ''AA:BB:CC:DD:EE:09''"
    by (simp add: example_info_def)
  have r: "fst (parse_scan_results 640 tick text_same_id) =
     [(''AA:BB:CC:DD:EE:09'', example_info ''AA:BB:CC:DD:EE:09'' (- 40) ''Open'' 0)]"
    by (simp add: parse_scan_results_def cells_same_id tick_def parse_cell_first
          parse_cell_second b)
  have p1: "parse_cell 640 (tick 1) cell_second = Inl ValueError"
    using parse_cell_second by (simp add: tick_def)
  from cells_same_id i0 i1 p1 r show ?thesis by blast
qed

text \<open>
  C4 (amended). On a cache that is a dictionary, \<^verbatim>\<open>get_networks(min_signal)\<close> returns
  exactly the cached records whose signal strength is at least \<open>min_signal\<close>, in the
  order of the cache, and leaves the scanner as it was. The default threshold is \<open>-100\<close>:
  the call without argument returns the records at or above \<open>-100\<close>, which is the whole
  cache exactly when no cached record is weaker than that.
\<close>

theorem get_networks_filter:
  assumes "dict_ok (wifi_data self)"
  shows "fst (get_networks self min_signal) =
           filter (\<lambda>(b, info). signal_strength info \<ge> min_signal) (wifi_data self) \<and>
         fst (get_networks_default self) =
           filter (\<lambda>(b, info). signal_strength info \<ge> - 100) (wifi_data self) \<and>
         (fst (get_networks_default self) = wifi_data self \<longleftrightarrow>
            list_all (\<lambda>(b, info). signal_strength info \<ge> - 100) (wifi_data self)) \<and>
         snd (get_networks self min_signal) = self"
proof -
  have a: "fst (get_networks self min_signal) =
           filter (\<lambda>(b, info). signal_strength info \<ge> min_signal) (wifi_data self)"
    by (rule networks_is_filter[OF assms])
  have b: "fst (get_networks_default self) =
           filter (\<lambda>(b, info). signal_strength info \<ge> - 100) (wifi_data self)"
    unfolding get_networks_default_def by (rule networks_is_filter[OF assms])
  have c: "fst (get_networks_default self) = wifi_data self \<longleftrightarrow>
            list_all (\<lambda>(b, info). signal_strength info \<ge> - 100) (wifi_data self)"
    unfolding b by (simp add: filter_id_conv list_all_iff)
  have d: "snd (get_networks self min_signal) = self" by (simp add: get_networks_def)
  from a b c d show ?thesis by blast
qed

theorem get_networks_filter_witness:
  "dict_ok (wifi_data (scanned scan_text)) \<and>
   fst (get_networks (scanned scan_text) (- 65)) =
     [(''AA:BB:CC:DD:EE:01'', example_info ''AA:BB:CC:DD:EE:01'' (- 60) ''Open'' 2),
      (''AA:BB:CC:DD:EE:03'', example_info ''AA:BB:CC:DD:EE:03'' (- 50) ''Open'' 4)] \<and>
   fst (get_networks_default (scanned scan_text)) = wifi_data (scanned scan_text) \<and>
   snd (get_networks (scanned scan_text) (- 65)) = scanned scan_text"
proof -
  have w: "wifi_data (scanned scan_text) = scan_cache" by code_simp
  have ok: "dict_ok (wifi_data (scanned scan_text))" unfolding w by code_simp
  have f: "filter (\<lambda>(b, info). signal_strength info \<ge> - 65) (wifi_data (scanned scan_text)) =
     [(''AA:BB:CC:DD:EE:01'', example_info ''AA:BB:CC:DD:EE:01'' (- 60) ''Open'' 2),
      (''AA:BB:CC:DD:EE:03'', example_info ''AA:BB:CC:DD:EE:03'' (- 50) ''Open'' 4)]"
    unfolding w by code_simp
  have a: "list_all (\<lambda>(b, info). signal_strength info \<ge> - 100) (wifi_data (scanned scan_text))"
    unfolding w by code_simp
  note t = get_networks_filter[OF ok, of "- 65"]
  from t f have 1: "fst (get_networks (scanned scan_text) (- 65)) =
     [(''AA:BB:CC:DD:EE:01'', example_info ''AA:BB:CC:DD:EE:01'' (- 60) ''Open'' 2),
      (''AA:BB:CC:DD:EE:03'', example_info ''AA:BB:CC:DD:EE:03'' (- 50) ''Open'' 4)]" by simp
  from t a have 2: "fst (get_networks_default (scanned scan_text)) = wifi_data (scanned scan_text)"
    by blast
  from t have 3: "snd (get_networks (scanned scan_text) (- 65)) = scanned scan_text" by blast
  from ok 1 2 3 show ?thesis by blast
qed

text \<open>
  The claim as it stands fails on a cache with a record weaker than \<open>-100\<close>, which a
  scan that reports \<^verbatim>\<open>Signal level=-101\<close> produces: the default call leaves it out.
\<close>

theorem get_networks_default_counterexample:
  "wifi_data (scanned text_weak) =
     [(''AA:BB:CC:DD:EE:05'', example_info ''AA:BB:CC:DD:EE:05'' (- 101) ''Open'' 0)] \<and>
   fst (get_networks_default (scanned text_weak)) = [] \<and>
   fst (get_networks_default (scanned text_weak)) \<noteq> wifi_data (scanned text_weak)"
  by code_simp

text \<open>
  C5. On a cache that is a dictionary and for \<open>k \<ge> 0\<close>, \<^verbatim>\<open>get_strongest_networks(k)\<close>
  returns records of the cache in descending order of signal strength, \<open>min k n\<close> of them
  for a cache of \<open>n\<close> records, none weaker than a record left out, and leaves the
  scanner as it was.
\<close>

theorem strongest_networks_sorted:
  assumes "dict_ok (wifi_data self)" and "0 \<le> k"
  shows "sorted_wrt (\<lambda>x y. signal_strength (snd x) \<ge> signal_strength (snd y))
           (fst (get_strongest_networks self k)) \<and>
         int (length (fst (get_strongest_networks self k))) = min k (int (length (wifi_data self))) \<and>
         set (fst (get_strongest_networks self k)) \<subseteq> set (wifi_data self) \<and>
         (\<forall>x \<in> set (fst (get_strongest_networks self k)).
          \<forall>y \<in> set (drop (nat k)
                       (sorted_reverse (\<lambda>x. signal_strength (snd x)) (wifi_data self))).
            signal_strength (snd y) \<le> signal_strength (snd x)) \<and>
         snd (get_strongest_networks self k) = self"
proof -
  let ?s = "sorted_reverse (\<lambda>x. signal_strength (snd x)) (wifi_data self)"
  have e: "fst (get_strongest_networks self k) = take (nat k) ?s"
    using strongest_is_slice[OF assms(1)] slice_to_nonneg[OF assms(2)] by simp
  have a: "sorted_wrt (\<lambda>x y. signal_strength (snd x) \<ge> signal_strength (snd y)) (take (nat k) ?s)"
    using sorted_reverse_desc[of "\<lambda>x. signal_strength (snd x)" "wifi_data self"]
    by (rule sorted_wrt_take)
  have b: "int (length (take (nat k) ?s)) = min k (int (length (wifi_data self)))"
    using assms(2) by (simp add: sorted_reverse_length)
  have c: "set (take (nat k) ?s) \<subseteq> set (wifi_data self)"
    using set_take_subset[of "nat k" ?s] by (simp add: sorted_reverse_set)
  have d: "snd (get_strongest_networks self k) = self" by (simp add: get_strongest_networks_def)
  have "sorted_wrt (\<lambda>x y. signal_strength (snd x) \<ge> signal_strength (snd y))
          (take (nat k) ?s @ drop (nat k) ?s)"
    using sorted_reverse_desc[of "\<lambda>x. signal_strength (snd x)" "wifi_data self"] by simp
  then have t: "\<forall>x \<in> set (take (nat k) ?s). \<forall>y \<in> set (drop (nat k) ?s).
      signal_strength (snd y) \<le> signal_strength (snd x)"
    unfolding sorted_wrt_append by blast
  from a b c d t show ?thesis unfolding e by blast
qed

theorem strongest_networks_sorted_witness:
  "dict_ok (wifi_data (scanned scan_text)) \<and>
   length (wifi_data (scanned scan_text)) = 3 \<and>
   length (fst (get_strongest_networks (scanned scan_text) 2)) = 2 \<and>
   length (fst (get_strongest_networks (scanned scan_text) 5)) = 3 \<and>
   length (fst (get_strongest_networks (scanned scan_text) 0)) = 0 \<and>
   sorted_wrt (\<lambda>x y. signal_strength (snd x) \<ge> signal_strength (snd y))
     (fst (get_strongest_networks (scanned scan_text) 2)) \<and>
   fst (get_strongest_networks (scanned scan_text) 2) =
     [(''AA:BB:CC:DD:EE:03'', example_info ''AA:BB:CC:DD:EE:03'' (- 50) ''Open'' 4),
      (''AA:BB:CC:DD:EE:01'', example_info ''AA:BB:CC:DD:EE:01'' (- 60) ''Open'' 2)]"
proof -
  have w: "wifi_data (scanned scan_text) = scan_cache" by code_simp
  have ok: "dict_ok (wifi_data (scanned scan_text))" unfolding w by code_simp
  have l: "length (wifi_data (scanned scan_text)) = 3" unfolding w by code_simp
  have v: "fst (get_strongest_networks (scanned scan_text) 2) =
     [(''AA:BB:CC:DD:EE:03'', example_info ''AA:BB:CC:DD:EE:03'' (- 50) ''Open'' 4),
      (''AA:BB:CC:DD:EE:01'', example_info ''AA:BB:CC:DD:EE:01'' (- 60) ''Open'' 2)]"
    by code_simp
  from strongest_networks_sorted[OF ok, of 2] strongest_networks_sorted[OF ok, of 5]
    strongest_networks_sorted[OF ok, of 0] ok l v
  show ?thesis by simp
qed

text \<open>
  C6. When the call of the scan tool ends with an exception (a nonzero exit status, the
  timeout, a missing binary or any other error), \<^verbatim>\<open>_scan_wifi_sync\<close> returns the empty
  mapping and logs one error; no exception leaves it.
\<close>

theorem scan_failure_recovered:
  assumes "run (scan_command iface) = Inl e"
  shows "scan_wifi_sync lim clock run iface =
           Inr ([], [(ERROR, case e of CalledProcessError \<Rightarrow> ScanCommandFailed
                                   | TimeoutExpired \<Rightarrow> ScanTimedOut
                                   | _ \<Rightarrow> ScanUnexpectedError)])"
  by (cases e) (simp_all add: scan_wifi_sync_def assms)

theorem scan_failure_recovered_witness:
  "scan_wifi_sync 0 tick (\<lambda>cmd. Inl CalledProcessError) (Some ''wlan0'') =
     Inr ([], [(ERROR, ScanCommandFailed)]) \<and>
   scan_wifi_sync 0 tick (\<lambda>cmd. Inl TimeoutExpired) (Some ''wlan0'') =
     Inr ([], [(ERROR, ScanTimedOut)]) \<and>
   scan_wifi_sync 0 tick (\<lambda>cmd. Inl FileNotFoundError) (Some ''wlan0'') =
     Inr ([], [(ERROR, ScanUnexpectedError)]) \<and>
   scan_wifi_sync 0 tick (\<lambda>cmd. Inl OtherException) None =
     Inr ([], [(ERROR, ScanUnexpectedError)])"
  using scan_failure_recovered[of "\<lambda>cmd. Inl CalledProcessError" "Some ''wlan0''" CalledProcessError 0 tick]
    scan_failure_recovered[of "\<lambda>cmd. Inl TimeoutExpired" "Some ''wlan0''" TimeoutExpired 0 tick]
    scan_failure_recovered[of "\<lambda>cmd. Inl FileNotFoundError" "Some ''wlan0''" FileNotFoundError 0 tick]
    scan_failure_recovered[of "\<lambda>cmd. Inl OtherException" None OtherException 0 tick]
  by simp

text \<open>
  C7 (amended). A chunk in which no \<^verbatim>\<open>Signal level\<close> label is followed by a value that
  can be read (the value of every such label is absent or is not a signed integer, or
  the chunk has no such label at all) parses to a record whose signal strength is the
  sentinel \<open>-100\<close>.
\<close>

theorem default_signal:
  assumes "parse_cell lim now cell = Inr (Some r)"
    and "\<forall>pre v. cell = pre @ ''Signal level'' @ v \<longrightarrow> \<not> signal_value_parsable v"
  shows "signal_strength r = - 100"
proof -
  have "re_search match_signal cell = None"
    using assms(2) by (simp only: signal_unparsable_iff)
  then show ?thesis by (rule parse_cell_Some(3)[OF assms(1)])
qed

theorem default_signal_witness:
  "sublist ''Signal level=good'' cell_wpa \<and>
   parse_cell 0 7 cell_wpa = Inr (Some (example_info ''AA:BB:CC:DD:EE:03'' (- 100) ''WPA'' 7)) \<and>
   signal_strength (example_info ''AA:BB:CC:DD:EE:03'' (- 100) ''WPA'' 7) = - 100 \<and>
   \<not> sublist ''Signal level'' cell_wep \<and>
   parse_cell 0 7 cell_wep = Inr (Some (example_info ''AA:BB:CC:DD:EE:04'' (- 100) ''WEP'' 7)) \<and>
   signal_strength (example_info ''AA:BB:CC:DD:EE:04'' (- 100) ''WEP'' 7) = - 100"
proof -
  have p3: "parse_cell 0 7 cell_wpa = Inr (Some (example_info ''AA:BB:CC:DD:EE:03'' (- 100) ''WPA'' 7))"
    by code_simp
  have p4: "parse_cell 0 7 cell_wep = Inr (Some (example_info ''AA:BB:CC:DD:EE:04'' (- 100) ''WEP'' 7))"
    by code_simp
  have l3: "sublist ''Signal level=good'' cell_wpa" by code_simp
  have l4: "\<not> sublist ''Signal level'' cell_wep" by code_simp
  have "re_search match_signal cell_wpa = None" by code_simp
  then have h3: "\<forall>pre v. cell_wpa = pre @ ''Signal level'' @ v \<longrightarrow> \<not> signal_value_parsable v"
    by (simp only: signal_unparsable_iff)
  have "re_search match_signal cell_wep = None" by code_simp
  then have h4: "\<forall>pre v. cell_wep = pre @ ''Signal level'' @ v \<longrightarrow> \<not> signal_value_parsable v"
    by (simp only: signal_unparsable_iff)
  have s3: "signal_strength (example_info ''AA:BB:CC:DD:EE:03'' (- 100) ''WPA'' 7) = - 100"
    by (rule default_signal[OF p3 h3])
  have s4: "signal_strength (example_info ''AA:BB:CC:DD:EE:04'' (- 100) ''WEP'' 7) = - 100"
    by (rule default_signal[OF p4 h4])
  from p3 p4 l3 l4 s3 s4 show ?thesis by blast
qed

text \<open>
  The claim as it stands fails on \<open>cell_two_labels\<close>: the chunk contains a label whose
  value cannot be read, but the search goes on to the second label, and the record has
  the signal strength \<open>-55\<close>.
\<close>

theorem default_signal_counterexample:
  "cell_two_labels = two_labels_head @ ''Signal level'' @ two_labels_value \<and>
   \<not> signal_value_parsable two_labels_value \<and>
   parse_cell 0 7 cell_two_labels =
     Inr (Some (example_info ''AA:BB:CC:DD:EE:08'' (- 55) ''Open'' 7)) \<and>
   signal_strength (example_info ''AA:BB:CC:DD:EE:08'' (- 55) ''Open'' 7) \<noteq> - 100"
proof -
  have a: "cell_two_labels = two_labels_head @ ''Signal level'' @ two_labels_value"
    by (simp add: cell_two_labels_def)
  have "match_signal (''Signal level'' @ two_labels_value) = None" by code_simp
  then have b: "\<not> signal_value_parsable two_labels_value"
    by (simp add: signal_value_parsable_match)
  have c: "parse_cell 0 7 cell_two_labels =
     Inr (Some (example_info ''AA:BB:CC:DD:EE:08'' (- 55) ''Open'' 7))" by code_simp
  have d: "signal_strength (example_info ''AA:BB:CC:DD:EE:08'' (- 55) ''Open'' 7) \<noteq> - 100"
    by (simp add: example_info_def)
  from a b c d show ?thesis by blast
qed

text \<open>
  C8. Merging a scan result into the cache twice leaves the cache as merging it once
  does, both for the update of the dictionary and for the pass of the scan loop that
  performs it.
\<close>

theorem merge_idempotent:
  "wifi_data (fst (scan_loop_merge res (scan_loop_merge res st))) =
   wifi_data (fst (scan_loop_merge res st)) \<and>
   dict_update (dict_update d res) res = dict_update d res"
  by (cases st) (simp add: scan_loop_merge_def dict_update_idem)

text \<open>
  C9. In every state that calls of \<^verbatim>\<open>start\<close> and \<^verbatim>\<open>stop\<close> and passes of the loop lead to
  from a new scanner, there is one active scan loop when the scanner is running and none
  when it is idle. \<^verbatim>\<open>start\<close> on a running scanner changes nothing but the log, which
  gets a warning, so two calls of \<^verbatim>\<open>start\<close> in a row leave one active loop; \<^verbatim>\<open>stop\<close>
  on an idle scanner, a new one included, changes nothing at all; \<^verbatim>\<open>start\<close> leads to
  Running and \<^verbatim>\<open>stop\<close> to Idle, and a second \<^verbatim>\<open>stop\<close> is a no-op.
\<close>

theorem lifecycle:
  assumes "reachable st"
  shows "active_loops (snd st) = (if running (fst st) then 1 else 0) \<and>
         (running (fst st) \<longrightarrow>
            start_continuous_scan st =
              (fst st, (snd st)\<lparr>logged := logged (snd st) @ [(WARNING, AlreadyRunning)]\<rparr>)) \<and>
         running (fst (start_continuous_scan st)) \<and>
         active_loops (snd (start_continuous_scan (start_continuous_scan st))) = 1 \<and>
         (\<not> running (fst st) \<longrightarrow> stop_continuous_scan st = st) \<and>
         \<not> running (fst (stop_continuous_scan st)) \<and>
         active_loops (snd (stop_continuous_scan st)) = 0 \<and>
         stop_continuous_scan (stop_continuous_scan st) = stop_continuous_scan st \<and>
         stop_continuous_scan (initial iface) = initial iface"
proof -
  have a: "active_loops (snd st) = (if running (fst st) then 1 else 0)"
    by (rule inv_active[OF reachable_inv[OF assms]])
  have "reachable (start_continuous_scan (start_continuous_scan st))"
    by (intro reachable.start assms)
  from inv_active[OF reachable_inv[OF this]]
  have b: "active_loops (snd (start_continuous_scan (start_continuous_scan st))) = 1"
    by (simp add: start_running)
  have idle: "\<not> running (fst (stop_continuous_scan st))"
    by (rule stop_idle[OF reachable_inv[OF assms]])
  have "reachable (stop_continuous_scan st)" by (intro reachable.stop assms)
  from inv_active[OF reachable_inv[OF this]]
  have c: "active_loops (snd (stop_continuous_scan st)) = 0"
    by (simp add: idle)
  have d: "stop_continuous_scan (stop_continuous_scan st) = stop_continuous_scan st"
    by (rule stop_noop[OF idle])
  have e: "stop_continuous_scan (initial iface) = initial iface"
    by (rule stop_noop) (simp add: initial_def new_scanner_def)
  from a b c d e start_noop[of st] stop_noop[of st] start_running[of st] idle
  show ?thesis by blast
qed

theorem lifecycle_witness:
  "active_loops (snd (start_continuous_scan (start_continuous_scan (initial None)))) = 1 \<and>
   stop_continuous_scan (initial None) = initial None \<and>
   active_loops (snd (stop_continuous_scan (start_continuous_scan (initial None)))) = 0 \<and>
   logged (snd (start_continuous_scan (start_continuous_scan (initial None)))) =
     [(INFO, StartedScanning), (WARNING, AlreadyRunning)]"
proof -
  have r0: "reachable (initial None)" by (rule reachable.init)
  have r1: "reachable (start_continuous_scan (initial None))" by (rule reachable.start[OF r0])
  have lg: "logged (snd (start_continuous_scan (start_continuous_scan (initial None)))) =
     [(INFO, StartedScanning), (WARNING, AlreadyRunning)]"
    by (simp add: start_continuous_scan_def initial_def new_scanner_def)
  from lifecycle[OF r0, of None] lifecycle[OF r1, of None] lg show ?thesis by simp
qed

text \<open>
  C10. On a cache that is a dictionary of \<open>n\<close> records and for \<open>count < 0\<close>,
  \<^verbatim>\<open>get_strongest_networks(count)\<close> returns the first \<open>max (n + count) 0\<close> records of the
  cache sorted by descending signal strength: all but the \<open>|count|\<close> weakest, none of
  which is stronger than a record returned.
\<close>

theorem strongest_networks_negative:
  assumes "dict_ok (wifi_data self)" and "count < 0"
  shows "fst (get_strongest_networks self count) =
           take (nat (max (int (length (wifi_data self)) + count) 0))
             (sorted_reverse (\<lambda>x. signal_strength (snd x)) (wifi_data self)) \<and>
         int (length (fst (get_strongest_networks self count))) =
           max (int (length (wifi_data self)) + count) 0 \<and>
         (\<forall>x \<in> set (fst (get_strongest_networks self count)).
          \<forall>y \<in> set (drop (nat (max (int (length (wifi_data self)) + count) 0))
                       (sorted_reverse (\<lambda>x. signal_strength (snd x)) (wifi_data self))).
            signal_strength (snd y) \<le> signal_strength (snd x))"
proof -
  let ?s = "sorted_reverse (\<lambda>x. signal_strength (snd x)) (wifi_data self)"
  let ?n = "nat (max (int (length (wifi_data self)) + count) 0)"
  have e: "fst (get_strongest_networks self count) = take ?n ?s"
    using strongest_is_slice[OF assms(1)] slice_to_neg[OF assms(2), of ?s]
    by (simp add: sorted_reverse_length)
  have b: "int (length (take ?n ?s)) = max (int (length (wifi_data self)) + count) 0"
    using assms(2) by (simp add: sorted_reverse_length)
  have "sorted_wrt (\<lambda>x y. signal_strength (snd x) \<ge> signal_strength (snd y)) (take ?n ?s @ drop ?n ?s)"
    using sorted_reverse_desc[of "\<lambda>x. signal_strength (snd x)" "wifi_data self"] by simp
  then have c: "\<forall>x \<in> set (take ?n ?s). \<forall>y \<in> set (drop ?n ?s).
      signal_strength (snd y) \<le> signal_strength (snd x)"
    unfolding sorted_wrt_append by blast
  from b c show ?thesis unfolding e by blast
qed

theorem strongest_networks_negative_witness:
  "dict_ok (wifi_data (scanned scan_text)) \<and>
   length (wifi_data (scanned scan_text)) = 3 \<and>
   length (fst (get_strongest_networks (scanned scan_text) (- 1))) = 2 \<and>
   length (fst (get_strongest_networks (scanned scan_text) (- 5))) = 0 \<and>
   fst (get_strongest_networks (scanned scan_text) (- 1)) =
     [(''AA:BB:CC:DD:EE:03'', example_info ''AA:BB:CC:DD:EE:03'' (- 50) ''Open'' 4),
      (''AA:BB:CC:DD:EE:01'', example_info ''AA:BB:CC:DD:EE:01'' (- 60) ''Open'' 2)]"
proof -
  have w: "wifi_data (scanned scan_text) = scan_cache" by code_simp
  have ok: "dict_ok (wifi_data (scanned scan_text))" unfolding w by code_simp
  have l: "length (wifi_data (scanned scan_text)) = 3" unfolding w by code_simp
  have v: "fst (get_strongest_networks (scanned scan_text) (- 1)) =
     [(''AA:BB:CC:DD:EE:03'', example_info ''AA:BB:CC:DD:EE:03'' (- 50) ''Open'' 4),
      (''AA:BB:CC:DD:EE:01'', example_info ''AA:BB:CC:DD:EE:01'' (- 60) ''Open'' 2)]"
    by code_simp
  have n1: "(- 1 :: int) < 0" and n5: "(- 5 :: int) < 0" by simp_all
  note t1 = strongest_networks_negative[OF ok n1, THEN conjunct2, THEN conjunct1]
  note t5 = strongest_networks_negative[OF ok n5, THEN conjunct2, THEN conjunct1]
  from t1 l have 1: "length (fst (get_strongest_networks (scanned scan_text) (- 1))) = 2" by simp
  from t5 l have 5: "length (fst (get_strongest_networks (scanned scan_text) (- 5))) = 0" by simp
  from ok l v 1 5 show ?thesis by blast
qed

end
